theory Spec2Isabelle
  imports Main
begin

section \<open>The recorder component: data model\<close>

text \<open>
  A shallow embedding of \<^verbatim>\<open>homeassistant/components/recorder/__init__.py\<close>: the worker
  thread \<^verbatim>\<open>Recorder.run\<close> with its connection retry loop, its start gate and its
  consume loop, the run bookkeeping (\<^verbatim>\<open>_setup_run\<close>, \<^verbatim>\<open>_close_run\<close>),
  \<^verbatim>\<open>_close_connection\<close> and the query \<^verbatim>\<open>run_information\<close>.

  Timestamps are integers (a count of time units), the event payload is a dictionary from
  strings to strings, and every exception that the modelled state can cause is a value
  of \<open>error\<close>.
\<close>

type_synonym timestamp = int

datatype error =
  TypeError | AttributeError | IndexError | ValueError | OperationalError

text \<open>Constants of the module and of \<^verbatim>\<open>homeassistant.const\<close>.\<close>

definition CONNECT_RETRY_WAIT :: int where
  "CONNECT_RETRY_WAIT = 10"

definition ATTR_ENTITY_ID :: string where
  "ATTR_ENTITY_ID = ''entity_id''"

definition EVENT_STATE_CHANGED :: string where
  "EVENT_STATE_CHANGED = ''state_changed''"

definition EVENT_TIME_CHANGED :: string where
  "EVENT_TIME_CHANGED = ''time_changed''"

definition EVENT_HOMEASSISTANT_START :: string where
  "EVENT_HOMEASSISTANT_START = ''homeassistant_start''"

definition EVENT_HOMEASSISTANT_STOP :: string where
  "EVENT_HOMEASSISTANT_STOP = ''homeassistant_stop''"

record event =
  event_type :: string
  data :: "string \<rightharpoonup> string"
  time_fired :: timestamp

subsection \<open>Stored rows and the database\<close>

text \<open>
  The rows of \<^verbatim>\<open>models.Events\<close>, \<^verbatim>\<open>models.States\<close> and \<^verbatim>\<open>models.RecorderRuns\<close>.
  A primary key is \<open>None\<close> as long as the storage engine has not generated it; the field
  \<^verbatim>\<open>end\<close> of a run is \<open>run_end\<close> here.
\<close>

record events_row =
  event_id :: "nat option"
  events_event_type :: string
  events_event_data :: "string \<rightharpoonup> string"
  events_time_fired :: timestamp

record states_row =
  state_id :: "nat option"
  states_event_id :: "nat option"
  states_entity_id :: "string option"

record recorder_runs =
  run_id :: "nat option"
  start :: timestamp
  run_end :: "timestamp option"
  closed_incorrect :: bool
  created :: timestamp

record database =
  events_table :: "events_row list"
  states_table :: "states_row list"
  recorder_runs_table :: "recorder_runs list"
  next_event_id :: nat
  next_state_id :: nat
  next_run_id :: nat

text \<open>
  A session collects the objects given to \<^verbatim>\<open>session.add\<close>. Adding an object only
  registers it as pending: the storage engine generates its primary key when the pending
  objects are flushed, by \<^verbatim>\<open>session.flush\<close> or by the commit at the end of a session
  scope (which is why \<^verbatim>\<open>_setup_run\<close> flushes before it detaches the new run). An added
  object that already has its primary key is written back to the row with that key.
\<close>

datatype db_object =
  Events_obj events_row | States_obj states_row | Runs_obj recorder_runs

type_synonym session = "db_object list"

definition session_add :: "db_object \<Rightarrow> session \<Rightarrow> session" where
  "session_add obj session = session @ [obj]"

definition flush_event :: "events_row \<Rightarrow> database \<Rightarrow> events_row \<times> database" where
  "flush_event e db =
     (case event_id e of
        None \<Rightarrow>
          (let e' = e\<lparr>event_id := Some (next_event_id db)\<rparr>
           in (e', db\<lparr>events_table := events_table db @ [e'],
                      next_event_id := Suc (next_event_id db)\<rparr>))
      | Some i \<Rightarrow>
          (e, db\<lparr>events_table :=
                    map (\<lambda>r. if event_id r = Some i then e else r) (events_table db)\<rparr>))"

definition flush_state :: "states_row \<Rightarrow> database \<Rightarrow> states_row \<times> database" where
  "flush_state s db =
     (case state_id s of
        None \<Rightarrow>
          (let s' = s\<lparr>state_id := Some (next_state_id db)\<rparr>
           in (s', db\<lparr>states_table := states_table db @ [s'],
                      next_state_id := Suc (next_state_id db)\<rparr>))
      | Some i \<Rightarrow>
          (s, db\<lparr>states_table :=
                    map (\<lambda>r. if state_id r = Some i then s else r) (states_table db)\<rparr>))"

definition flush_run :: "recorder_runs \<Rightarrow> database \<Rightarrow> recorder_runs \<times> database" where
  "flush_run r db =
     (case run_id r of
        None \<Rightarrow>
          (let r' = r\<lparr>run_id := Some (next_run_id db)\<rparr>
           in (r', db\<lparr>recorder_runs_table := recorder_runs_table db @ [r'],
                      next_run_id := Suc (next_run_id db)\<rparr>))
      | Some i \<Rightarrow>
          (r, db\<lparr>recorder_runs_table :=
                    map (\<lambda>x. if run_id x = Some i then r else x) (recorder_runs_table db)\<rparr>))"

fun flush_object :: "db_object \<Rightarrow> database \<Rightarrow> db_object \<times> database" where
  "flush_object (Events_obj e) db = (let (e', db') = flush_event e db in (Events_obj e', db'))"
| "flush_object (States_obj s) db = (let (s', db') = flush_state s db in (States_obj s', db'))"
| "flush_object (Runs_obj r) db = (let (r', db') = flush_run r db in (Runs_obj r', db'))"

text \<open>
  \<open>session_flush\<close> writes the pending objects in the order they were added and returns
  them as the session knows them afterwards, with their generated keys.
\<close>

fun session_flush :: "session \<Rightarrow> database \<Rightarrow> session \<times> database" where
  "session_flush [] db = ([], db)"
| "session_flush (obj # pending) db =
     (let (obj', db') = flush_object obj db;
          (pending', db'') = session_flush pending db'
      in (obj' # pending', db''))"

text \<open>
  Modelled from the spec: the exit of \<^verbatim>\<open>util.session_scope\<close> (a function of this
  repository that is not among the sources). On a normal exit the scope commits, which
  flushes what is pending, and releases the session.
\<close>

definition session_commit :: "session \<Rightarrow> database \<Rightarrow> database" where
  "session_commit session db = snd (session_flush session db)"

text \<open>
  Modelled from the spec: \<^verbatim>\<open>models.Events.from_event\<close> and
  \<^verbatim>\<open>models.States.from_event\<close>, which build a StoredEvent (type, serialized data,
  time fired) and a StoredState (entity identifier) from an event. Neither sets a key:
  \<open>event_id\<close> and \<open>state_id\<close> are generated by the storage engine.
\<close>

definition Events_from_event :: "event \<Rightarrow> events_row" where
  "Events_from_event ev =
     \<lparr>event_id = None, events_event_type = event_type ev,
      events_event_data = data ev, events_time_fired = time_fired ev\<rparr>"

definition States_from_event :: "event \<Rightarrow> states_row" where
  "States_from_event ev =
     \<lparr>state_id = None, states_event_id = None, states_entity_id = data ev ATTR_ENTITY_ID\<rparr>"

subsection \<open>The queue\<close>

text \<open>
  The items of the shared queue: \<^verbatim>\<open>None\<close> is the stop marker, \<^verbatim>\<open>purge_task\<close> the purge
  marker, anything else an event. The queue is Python's \<^verbatim>\<open>queue.Queue\<close>: \<^verbatim>\<open>put\<close>
  appends and counts the item as unfinished, \<^verbatim>\<open>task_done\<close> counts one item as finished
  (a \<^verbatim>\<open>ValueError\<close> when there is none), and \<^verbatim>\<open>join\<close> returns once no item is
  unfinished.
\<close>

datatype queue_item = None_item | Purge_task | Event_item event

record py_queue =
  items :: "queue_item list"
  unfinished_tasks :: nat

definition queue_put :: "queue_item \<Rightarrow> py_queue \<Rightarrow> py_queue" where
  "queue_put item q = q\<lparr>items := items q @ [item], unfinished_tasks := Suc (unfinished_tasks q)\<rparr>"

definition queue_task_done :: "py_queue \<Rightarrow> error + py_queue" where
  "queue_task_done q =
     (if unfinished_tasks q = 0 then Inl ValueError
      else Inr (q\<lparr>unfinished_tasks := unfinished_tasks q - 1\<rparr>))"

definition queue_join_returns :: "py_queue \<Rightarrow> bool" where
  "queue_join_returns q \<longleftrightarrow> unfinished_tasks q = 0"

subsection \<open>The recorder and its surroundings\<close>

text \<open>An engine is the URL it was created for and whether it uses the static pool.\<close>

datatype engine = Engine string bool

datatype scoped_session = Scoped_session

record recorder =
  purge_days :: "int option"
  queue :: py_queue
  recording_start :: timestamp
  db_url :: string
  async_db_ready :: bool
  engine :: "engine option"
  run_info :: "recorder_runs option"
  include_e :: "string list"
  include_d :: "string list"
  exclude :: "string list"
  get_session :: "scoped_session option"

text \<open>
  What the worker does to its surroundings, in the order it happens: log records, sleeps,
  the notification, the scheduled setting of the readiness flag, commits and queries of
  the storage, the disposal of the engine and calls of the purge routine.
\<close>

datatype effect =
  Log_error | Log_warning | Sleep int | Notification string string
  | Db_ready_set | Commit | Query | Dispose | Purge_call

datatype core_state = Not_running | Starting | Core_running | Stopping

datatype future_result = Result_None | Shutdown_task

text \<open>
  The world is the recorder (\<^verbatim>\<open>hass.data[DATA_INSTANCE]\<close>), the storage behind its URL,
  the clock read by \<^verbatim>\<open>dt_util.utcnow\<close>, the effects so far, the state of the host, the
  future \<^verbatim>\<open>hass_started\<close> of \<^verbatim>\<open>run\<close> (\<open>None\<close> while it is not done), the event types
  that still have a one-time listener of the recorder, and whether the purge timer is
  registered.
\<close>

record world =
  ins :: recorder
  storage :: database
  clock :: timestamp
  trace :: "effect list"
  hass_state :: core_state
  hass_started :: "future_result option"
  listeners :: "string list"
  purge_timer :: bool

definition CONF_ENTITIES :: string where
  "CONF_ENTITIES = ''entities''"

definition CONF_DOMAINS :: string where
  "CONF_DOMAINS = ''domains''"

definition dict_get :: "('k \<rightharpoonup> 'v) \<Rightarrow> 'k \<Rightarrow> 'v \<Rightarrow> 'v" where
  "dict_get d k dflt = (case d k of None \<Rightarrow> dflt | Some v \<Rightarrow> v)"

text \<open>\<^verbatim>\<open>Recorder.__init__\<close>; \<open>now\<close> is the clock at construction.\<close>

definition Recorder_init ::
  "timestamp \<Rightarrow> int option \<Rightarrow> string \<Rightarrow> (string \<rightharpoonup> string list) \<Rightarrow> (string \<rightharpoonup> string list) \<Rightarrow> recorder"
where
  "Recorder_init now purge_days' uri include exclude' =
     \<lparr>purge_days = purge_days',
      queue = \<lparr>items = [], unfinished_tasks = 0\<rparr>,
      recording_start = now,
      db_url = uri,
      async_db_ready = False,
      engine = None,
      run_info = None,
      include_e = dict_get include CONF_ENTITIES [],
      include_d = dict_get include CONF_DOMAINS [],
      exclude = dict_get exclude' CONF_ENTITIES [] @ dict_get exclude' CONF_DOMAINS [],
      get_session = None\<rparr>"

text \<open>\<^verbatim>\<open>event_listener\<close> and the three uses of the queue by the worker.\<close>

definition event_listener :: "event \<Rightarrow> world \<Rightarrow> world" where
  "event_listener ev w = w\<lparr>ins := (ins w)\<lparr>queue := queue_put (Event_item ev) (queue (ins w))\<rparr>\<rparr>"

definition task_done :: "world \<Rightarrow> error + world" where
  "task_done w =
     (case queue_task_done (queue (ins w)) of
        Inl e \<Rightarrow> Inl e
      | Inr q \<Rightarrow> Inr (w\<lparr>ins := (ins w)\<lparr>queue := q\<rparr>\<rparr>))"

definition block_till_done_returns :: "world \<Rightarrow> bool" where
  "block_till_done_returns w \<longleftrightarrow> queue_join_returns (queue (ins w))"

subsection \<open>The consume loop of \<^verbatim>\<open>Recorder.run\<close>\<close>

text \<open>
  Two collaborators are parameters of the model. \<open>split_entity_id\<close> is
  \<^verbatim>\<open>homeassistant.core.split_entity_id\<close>, which returns the list of the parts of an
  entity identifier, the domain first. \<open>purge_old_data\<close> is \<^verbatim>\<open>purge.purge_old_data\<close>:
  given the clock, the configured retention and the storage it returns the purged
  storage or raises.
\<close>

type_synonym split_fn = "string \<Rightarrow> string list"

type_synonym purge_fn = "timestamp \<Rightarrow> int option \<Rightarrow> database \<Rightarrow> error + database"

text \<open>
  The filter of the loop body: \<open>Inr True\<close> when the event is dropped, \<open>Inr False\<close> when it
  goes on to be persisted, \<^verbatim>\<open>IndexError\<close> when the split identifier has no first part.
\<close>

definition filtered_out :: "split_fn \<Rightarrow> recorder \<Rightarrow> event \<Rightarrow> error + bool" where
  "filtered_out split_entity_id self ev =
     (case data ev ATTR_ENTITY_ID of
        None \<Rightarrow> Inr False
      | Some entity_id \<Rightarrow>
          (case split_entity_id entity_id of
             [] \<Rightarrow> Inl IndexError
           | domain # _ \<Rightarrow>
               if entity_id \<in> set (exclude self) \<or>
                  (domain \<in> set (exclude self) \<and> entity_id \<notin> set (include_e self))
               then Inr True
               else if (include_d self \<noteq> [] \<and> domain \<notin> set (include_d self)) \<or>
                       (include_e self \<noteq> [] \<and> entity_id \<notin> set (include_e self) \<and>
                        exclude self = [])
               then Inr True
               else Inr False))"

text \<open>
  The session scope that persists one event. \<^verbatim>\<open>dbevent.event_id\<close> is read right after
  \<^verbatim>\<open>session.add(dbevent)\<close>, before anything is flushed.
\<close>

definition persist :: "event \<Rightarrow> world \<Rightarrow> error + world" where
  "persist ev w =
     (case get_session (ins w) of
        None \<Rightarrow> Inl TypeError
      | Some _ \<Rightarrow>
          (let dbevent = Events_from_event ev;
               session = session_add (Events_obj dbevent) [];
               session' =
                 (if event_type ev = EVENT_STATE_CHANGED
                  then (let dbstate = States_from_event ev;
                            dbstate' = dbstate\<lparr>states_event_id := event_id dbevent\<rparr>
                        in session_add (States_obj dbstate') session)
                  else session)
           in Inr (w\<lparr>storage := session_commit session' (storage w),
                     trace := trace w @ [Commit]\<rparr>)))"

text \<open>\<^verbatim>\<open>_close_run\<close> and \<^verbatim>\<open>_close_connection\<close>.\<close>

definition close_run :: "world \<Rightarrow> error + world" where
  "close_run w =
     (case get_session (ins w) of
        None \<Rightarrow> Inl TypeError
      | Some _ \<Rightarrow>
          (case run_info (ins w) of
             None \<Rightarrow> Inl AttributeError
           | Some info \<Rightarrow>
               (let info' = info\<lparr>run_end := Some (clock w)\<rparr>;
                    session = session_add (Runs_obj info') []
                in Inr (w\<lparr>ins := (ins w)\<lparr>run_info := None\<rparr>,
                          storage := session_commit session (storage w),
                          trace := trace w @ [Commit]\<rparr>))))"

definition close_connection :: "world \<Rightarrow> error + world" where
  "close_connection w =
     (case engine (ins w) of
        None \<Rightarrow> Inl AttributeError
      | Some _ \<Rightarrow>
          Inr (w\<lparr>ins := (ins w)\<lparr>engine := None, get_session := None\<rparr>,
                 trace := trace w @ [Dispose]\<rparr>))"

text \<open>
  How a pass through the loop body ends: the loop goes on, the thread returns, the thread
  is blocked in \<^verbatim>\<open>queue.get\<close> on an empty queue, or an exception ends the thread.
\<close>

datatype status = Continue | Returned | Blocked | Raised error

definition queue_get :: "world \<Rightarrow> (queue_item \<times> world) option" where
  "queue_get w =
     (case items (queue (ins w)) of
        [] \<Rightarrow> None
      | item # rest \<Rightarrow> Some (item, w\<lparr>ins := (ins w)\<lparr>queue := (queue (ins w))\<lparr>items := rest\<rparr>\<rparr>\<rparr>))"

definition task_done_continue :: "world \<Rightarrow> status \<times> world" where
  "task_done_continue w =
     (case task_done w of Inl e \<Rightarrow> (Raised e, w) | Inr w' \<Rightarrow> (Continue, w'))"

definition loop_body :: "split_fn \<Rightarrow> purge_fn \<Rightarrow> world \<Rightarrow> status \<times> world" where
  "loop_body split_entity_id purge_old_data w =
     (case queue_get w of
        None \<Rightarrow> (Blocked, w)
      | Some (None_item, w0) \<Rightarrow>
          (case close_run w0 of
             Inl e \<Rightarrow> (Raised e, w0)
           | Inr w1 \<Rightarrow>
               (case close_connection w1 of
                  Inl e \<Rightarrow> (Raised e, w1)
                | Inr w2 \<Rightarrow>
                    (case task_done w2 of
                       Inl e \<Rightarrow> (Raised e, w2)
                     | Inr w3 \<Rightarrow> (Returned, w3))))
      | Some (Purge_task, w0) \<Rightarrow>
          (case purge_old_data (clock w0) (purge_days (ins w0)) (storage w0) of
             Inl e \<Rightarrow> (Raised e, w0\<lparr>trace := trace w0 @ [Purge_call]\<rparr>)
           | Inr db \<Rightarrow> (Continue, w0\<lparr>storage := db, trace := trace w0 @ [Purge_call]\<rparr>))
      | Some (Event_item ev, w0) \<Rightarrow>
          if event_type ev = EVENT_TIME_CHANGED then task_done_continue w0
          else
            (case filtered_out split_entity_id (ins w0) ev of
               Inl e \<Rightarrow> (Raised e, w0)
             | Inr True \<Rightarrow> task_done_continue w0
             | Inr False \<Rightarrow>
                 (case persist ev w0 of
                    Inl e \<Rightarrow> (Raised e, w0)
                  | Inr w1 \<Rightarrow> task_done_continue w1)))"

text \<open>
  The loop itself. Every pass that goes on has taken one item off the queue, which is the
  reason why the loop over a given queue content ends.
\<close>

lemma loop_body_Continue_shorter:
  "loop_body split_entity_id purge_old_data w = (Continue, w') \<Longrightarrow>
   length (items (queue (ins w'))) < length (items (queue (ins w)))"
  by (auto simp: loop_body_def queue_get_def task_done_continue_def task_done_def
      queue_task_done_def persist_def Let_def
      split: list.splits queue_item.splits sum.splits if_splits bool.splits option.splits)

function consume :: "split_fn \<Rightarrow> purge_fn \<Rightarrow> world \<Rightarrow> status \<times> world" where
  "consume split_entity_id purge_old_data w =
     (case loop_body split_entity_id purge_old_data w of
        (Continue, w') \<Rightarrow> consume split_entity_id purge_old_data w'
      | (st, w') \<Rightarrow> (st, w'))"
  by pat_completeness auto
termination
  by (relation "measure (\<lambda>(s, p, w). length (items (queue (ins w))))")
    (auto dest: loop_body_Continue_shorter [OF sym])

declare consume.simps [simp del]

text \<open>
  The first \<open>k\<close> passes of the loop: the state of the worker after each pass, for
  properties that hold at any time while the loop runs. The result is \<open>Continue\<close> when the
  loop is still running after \<open>k\<close> passes.
\<close>

fun passes :: "nat \<Rightarrow> split_fn \<Rightarrow> purge_fn \<Rightarrow> world \<Rightarrow> status \<times> world" where
  "passes 0 split_entity_id purge_old_data w = (Continue, w)"
| "passes (Suc k) split_entity_id purge_old_data w =
     (case loop_body split_entity_id purge_old_data w of
        (Continue, w') \<Rightarrow> passes k split_entity_id purge_old_data w'
      | (st, w') \<Rightarrow> (st, w'))"

subsection \<open>Connection setup and its retry loop\<close>

text \<open>Python's \<^verbatim>\<open>sub in s\<close> on strings.\<close>

fun contains :: "string \<Rightarrow> string \<Rightarrow> bool" where
  "contains sub [] = (sub = [])"
| "contains sub (c # s) = (take (length sub) (c # s) = sub \<or> contains sub s)"

definition create_engine :: "string \<Rightarrow> engine" where
  "create_engine url =
     (if url = ''sqlite://'' \<or> contains '':memory:'' url
      then Engine ''sqlite://'' True
      else Engine url False)"

definition setup_connection :: "world \<Rightarrow> world" where
  "setup_connection w =
     w\<lparr>ins := (ins w)\<lparr>engine := Some (create_engine (db_url (ins w))),
                       get_session := Some Scoped_session\<rparr>\<rparr>"

text \<open>
  \<^verbatim>\<open>_setup_run\<close>. The loop over the stored runs without an end is a recursion over the
  table; the changed rows and the new run are written by \<^verbatim>\<open>session.flush\<close>, after which
  the new run has its key and is detached.
\<close>

fun close_unfinished :: "timestamp \<Rightarrow> recorder_runs list \<Rightarrow> recorder_runs list" where
  "close_unfinished t [] = []"
| "close_unfinished t (run # runs) =
     (if run_end run = None
      then run\<lparr>closed_incorrect := True, run_end := Some t\<rparr>
      else run) # close_unfinished t runs"

definition setup_run :: "world \<Rightarrow> error + world" where
  "setup_run w =
     (case get_session (ins w) of
        None \<Rightarrow> Inl TypeError
      | Some _ \<Rightarrow>
          (let unfinished = filter (\<lambda>run. run_end run = None) (recorder_runs_table (storage w));
               db1 = (storage w)\<lparr>recorder_runs_table :=
                        close_unfinished (recording_start (ins w)) (recorder_runs_table (storage w))\<rparr>;
               new_run = \<lparr>run_id = None, start = recording_start (ins w), run_end = None,
                          closed_incorrect = False, created = clock w\<rparr>;
               (flushed, db2) = flush_run new_run db1
           in Inr (w\<lparr>ins := (ins w)\<lparr>run_info := Some flushed\<rparr>,
                     storage := db2,
                     trace := trace w @ [Query] @ replicate (length unfinished) Log_warning @ [Commit]\<rparr>)))"

text \<open>The stored runs that have no end.\<close>

definition open_runs :: "database \<Rightarrow> recorder_runs list" where
  "open_runs db = filter (\<lambda>r. run_end r = None) (recorder_runs_table db)"

text \<open>
  One pass through the \<^verbatim>\<open>try\<close> block. Whether the storage can be reached is not decided
  by the program, so the outcome of each attempt is given from outside: the stage that
  raises, or success. A stage that raises has changed nothing; the stages before it have
  run. The schema migration does not touch the rows modelled here.
\<close>

datatype attempt =
  Create_engine_fails | Create_all_fails | Migrate_fails | Setup_run_fails | Succeeds

definition try_setup :: "attempt \<Rightarrow> world \<Rightarrow> bool \<times> world" where
  "try_setup a w =
     (case a of
        Create_engine_fails \<Rightarrow> (False, w)
      | Create_all_fails \<Rightarrow>
          (False, w\<lparr>ins := (ins w)\<lparr>engine := Some (create_engine (db_url (ins w)))\<rparr>\<rparr>)
      | Migrate_fails \<Rightarrow> (False, setup_connection w)
      | Setup_run_fails \<Rightarrow> (False, setup_connection w)
      | Succeeds \<Rightarrow>
          (case setup_run (setup_connection w) of
             Inl e \<Rightarrow> (False, setup_connection w)
           | Inr w' \<Rightarrow>
               (True, w'\<lparr>ins := (ins w')\<lparr>async_db_ready := True\<rparr>,
                         trace := trace w' @ [Db_ready_set]\<rparr>)))"

text \<open>
  The retry loop. \<open>retry\<close> is the local variable of that name, \<open>None\<close> while it is
  unbound. \<^verbatim>\<open>locals()\<close> shows the bindings of the frame as they are when it is called:
  at the first failure \<^verbatim>\<open>retry\<close> is unbound and \<^verbatim>\<open>setdefault\<close> returns the default,
  afterwards it returns the value bound by the failure before. \<open>n\<close> counts the attempts
  made so far. The result is whether the setup succeeded.
\<close>

definition locals_setdefault_retry :: "int option \<Rightarrow> int \<Rightarrow> int" where
  "locals_setdefault_retry retry dflt = (case retry of None \<Rightarrow> dflt | Some v \<Rightarrow> v)"

definition failure_notice :: effect where
  "failure_notice =
     Notification ''The recorder could not start, please check the log'' ''Recorder''"

definition log_and_sleep :: "world \<Rightarrow> world" where
  "log_and_sleep w =
     w\<lparr>trace := trace w @ [Log_error, Sleep CONNECT_RETRY_WAIT],
       clock := clock w + CONNECT_RETRY_WAIT\<rparr>"

partial_function (option) connect_loop ::
  "(nat \<Rightarrow> attempt) \<Rightarrow> nat \<Rightarrow> int option \<Rightarrow> world \<Rightarrow> (bool \<times> world) option"
where
  "connect_loop attempts n retry w =
     (let (ok, w') = try_setup (attempts n) w
      in if ok then Some (True, w')
         else
           (let w1 = log_and_sleep w';
                retry' = locals_setdefault_retry retry 10 - 1
            in if retry' = 0
               then Some (False, w1\<lparr>trace := trace w1 @ [failure_notice]\<rparr>)
               else connect_loop attempts (Suc n) (Some retry') w1))"

declare connect_loop.simps [code]

subsection \<open>The start gate\<close>

text \<open>
  The callbacks defined in \<^verbatim>\<open>register\<close>. \<^verbatim>\<open>shutdown\<close> ends with \<^verbatim>\<open>self.join()\<close>, which
  blocks its caller, not the worker.
\<close>

definition shutdown :: "world \<Rightarrow> world" where
  "shutdown w =
     (let w1 = (if hass_started w = None then w\<lparr>hass_started := Some Shutdown_task\<rparr> else w)
      in w1\<lparr>ins := (ins w1)\<lparr>queue := queue_put None_item (queue (ins w1))\<rparr>\<rparr>)"

definition notify_hass_started :: "world \<Rightarrow> world" where
  "notify_hass_started w = w\<lparr>hass_started := Some Result_None\<rparr>"

definition do_purge :: "world \<Rightarrow> world" where
  "do_purge w = w\<lparr>ins := (ins w)\<lparr>queue := queue_put Purge_task (queue (ins w))\<rparr>\<rparr>"

definition register :: "world \<Rightarrow> world" where
  "register w =
     (let w1 = w\<lparr>listeners := listeners w @ [EVENT_HOMEASSISTANT_STOP]\<rparr>;
          w2 = (if hass_state w1 = Core_running
                then w1\<lparr>hass_started := Some Result_None\<rparr>
                else w1\<lparr>listeners := listeners w1 @ [EVENT_HOMEASSISTANT_START]\<rparr>)
      in if purge_days (ins w2) \<noteq> None then w2\<lparr>purge_timer := True\<rparr> else w2)"

text \<open>
  Modelled from the spec: the event bus and the timer of the host, which are not among
  the sources. A fired event goes to the subscribe-to-all listener \<^verbatim>\<open>event_listener\<close>
  and to the one-time listener of its type, if one is registered; a firing of the periodic
  timer goes to \<^verbatim>\<open>do_purge\<close>.
\<close>

datatype bus_input = Fire event | Timer

fun dispatch :: "bus_input \<Rightarrow> world \<Rightarrow> world" where
  "dispatch (Fire ev) w =
     (let w1 = event_listener ev w
      in if event_type ev \<in> set (listeners w1)
         then (let w2 = w1\<lparr>listeners := removeAll (event_type ev) (listeners w1)\<rparr>
               in if event_type ev = EVENT_HOMEASSISTANT_STOP then shutdown w2
                  else if event_type ev = EVENT_HOMEASSISTANT_START then notify_hass_started w2
                  else w2)
         else w1)"
| "dispatch Timer w = (if purge_timer w then do_purge w else w)"

text \<open>
  \<^verbatim>\<open>hass_started.result()\<close>: the worker waits while the host goes on, and continues with
  the result as soon as the future is done. The inputs not yet dispatched are returned
  with it.
\<close>

fun await_hass_started ::
  "bus_input list \<Rightarrow> world \<Rightarrow> future_result option \<times> bus_input list \<times> world"
where
  "await_hass_started [] w = (hass_started w, [], w)"
| "await_hass_started (b # bs) w =
     (case hass_started w of
        Some r \<Rightarrow> (Some r, b # bs, w)
      | None \<Rightarrow> await_hass_started bs (dispatch b w))"

subsection \<open>The thread\<close>

text \<open>
  \<^verbatim>\<open>Recorder.run\<close>, given the outcomes of the setup attempts and what the host fires
  after \<^verbatim>\<open>register\<close>. The producers never wait for the worker and the queue is first in,
  first out, so the worker sees the same items in the same order whether they arrive
  while it works or before: past the gate, the remaining inputs are dispatched first and
  the queue is consumed afterwards.
\<close>

definition run ::
  "split_fn \<Rightarrow> purge_fn \<Rightarrow> (nat \<Rightarrow> attempt) \<Rightarrow> bus_input list \<Rightarrow> world \<Rightarrow> (status \<times> world) option"
where
  "run split_entity_id purge_old_data attempts bus w =
     (case connect_loop attempts 0 None w of
        None \<Rightarrow> None
      | Some (False, w1) \<Rightarrow> Some (Returned, w1)
      | Some (True, w1) \<Rightarrow>
          (case await_hass_started bus (register (w1\<lparr>hass_started := None\<rparr>)) of
             (None, rest, w2) \<Rightarrow> Some (Blocked, w2)
           | (Some Shutdown_task, rest, w2) \<Rightarrow> Some (Returned, w2)
           | (Some Result_None, rest, w2) \<Rightarrow>
               Some (consume split_entity_id purge_old_data (fold dispatch rest w2))))"

subsection \<open>\<^verbatim>\<open>run_information\<close>\<close>

text \<open>
  The result and the world afterwards, whose trace shows whether the storage was
  queried. A comparison with a null \<^verbatim>\<open>end\<close> is not true in the query; \<^verbatim>\<open>first()\<close> is
  the first matching row of the table.
\<close>

definition covers :: "timestamp \<Rightarrow> recorder_runs \<Rightarrow> bool" where
  "covers point_in_time r \<longleftrightarrow>
     start r < point_in_time \<and>
     (case run_end r of None \<Rightarrow> False | Some e \<Rightarrow> point_in_time < e)"

definition run_information ::
  "world \<Rightarrow> timestamp option \<Rightarrow> (error + recorder_runs option) \<times> world"
where
  "run_information hass point_in_time =
     (case point_in_time of
        None \<Rightarrow> (Inr (run_info (ins hass)), hass)
      | Some t \<Rightarrow>
          if t > recording_start (ins hass) then (Inr (run_info (ins hass)), hass)
          else
            (case get_session (ins hass) of
               None \<Rightarrow> (Inl TypeError, hass)
             | Some _ \<Rightarrow>
                 (Inr (find (covers t) (recorder_runs_table (storage hass))),
                  hass\<lparr>trace := trace hass @ [Query, Commit]\<rparr>)))"

section \<open>The filter rules in the words of the specification\<close>

text \<open>
  \<open>shouldRecord\<close> for an event that carries the entity identifier \<open>e\<close> with domain \<open>d\<close>,
  over a filter configuration of three sets: rules 1 to 4, in this order.
\<close>

definition spec_shouldRecord ::
  "string set \<Rightarrow> string set \<Rightarrow> string set \<Rightarrow> string \<Rightarrow> string \<Rightarrow> bool"
where
  "spec_shouldRecord include_entities include_domains exclude_set e d =
     (if e \<in> exclude_set \<or> (d \<in> exclude_set \<and> e \<notin> include_entities) then False
      else if include_domains \<noteq> {} \<and> d \<notin> include_domains then False
      else if include_entities \<noteq> {} \<and> e \<notin> include_entities \<and> exclude_set = {} then False
      else True)"

text \<open>A world under another filter configuration.\<close>

definition with_filter :: "string list \<Rightarrow> string list \<Rightarrow> string list \<Rightarrow> world \<Rightarrow> world" where
  "with_filter ie idom ex w =
     w\<lparr>ins := (ins w)\<lparr>include_e := ie, include_d := idom, exclude := ex\<rparr>\<rparr>"

section \<open>Concrete inputs\<close>

text \<open>
  A split at the first dot, a purge routine that finds nothing to delete, and a world in
  which the recorder is connected and its first run is open: the state of the worker in
  its consume loop, with the given filter configuration, queue content and number of
  unfinished items.
\<close>

definition split_at_dot :: split_fn where
  "split_at_dot s =
     [takeWhile (\<lambda>c. c \<noteq> CHR ''.'') s, drop 1 (dropWhile (\<lambda>c. c \<noteq> CHR ''.'') s)]"

definition keep_all :: purge_fn where
  "keep_all now days db = Inr db"

definition first_run :: recorder_runs where
  "first_run =
     \<lparr>run_id = Some 1, start = 100, run_end = None, closed_incorrect = False, created = 101\<rparr>"

definition recording_world ::
  "(string \<rightharpoonup> string list) \<Rightarrow> (string \<rightharpoonup> string list) \<Rightarrow> queue_item list \<Rightarrow> nat \<Rightarrow> world"
where
  "recording_world include exclude' its n =
     \<lparr>ins = (Recorder_init 100 (Some 7) ''sqlite:///home-assistant_v2.db'' include exclude')
              \<lparr>queue := \<lparr>items = its, unfinished_tasks = n\<rparr>,
               async_db_ready := True,
               engine := Some (Engine ''sqlite:///home-assistant_v2.db'' False),
               run_info := Some first_run,
               get_session := Some Scoped_session\<rparr>,
      storage = \<lparr>events_table = [], states_table = [], recorder_runs_table = [first_run],
                 next_event_id = 1, next_state_id = 1, next_run_id = 2\<rparr>,
      clock = 150, trace = [], hass_state = Core_running, hass_started = Some Result_None,
      listeners = [EVENT_HOMEASSISTANT_STOP], purge_timer = True\<rparr>"

definition state_changed :: "string \<Rightarrow> event" where
  "state_changed e =
     \<lparr>event_type = EVENT_STATE_CHANGED, data = [ATTR_ENTITY_ID \<mapsto> e], time_fired = 120\<rparr>"

definition plain_event :: "string \<Rightarrow> event" where
  "plain_event ty = \<lparr>event_type = ty, data = Map.empty, time_fired = 120\<rparr>"

definition time_tick :: event where
  "time_tick =
     \<lparr>event_type = EVENT_TIME_CHANGED, data = [ATTR_ENTITY_ID \<mapsto> ''sensor.clock''],
      time_fired = 120\<rparr>"

text \<open>
  A world at a restart, connected and before \<^verbatim>\<open>_setup_run\<close>: the storage holds a run
  that was closed in order and a run that a crash left without an end.
\<close>

definition finished_run :: recorder_runs where
  "finished_run =
     \<lparr>run_id = Some 1, start = 10, run_end = Some 50, closed_incorrect = False, created = 11\<rparr>"

definition crashed_run :: recorder_runs where
  "crashed_run =
     \<lparr>run_id = Some 2, start = 60, run_end = None, closed_incorrect = False, created = 61\<rparr>"

definition restart_world :: "queue_item list \<Rightarrow> nat \<Rightarrow> world" where
  "restart_world its n =
     \<lparr>ins = (Recorder_init 100 (Some 7) ''sqlite:///home-assistant_v2.db'' Map.empty Map.empty)
              \<lparr>queue := \<lparr>items = its, unfinished_tasks = n\<rparr>,
               engine := Some (Engine ''sqlite:///home-assistant_v2.db'' False),
               get_session := Some Scoped_session\<rparr>,
      storage = \<lparr>events_table = [], states_table = [],
                 recorder_runs_table = [finished_run, crashed_run],
                 next_event_id = 1, next_state_id = 1, next_run_id = 3\<rparr>,
      clock = 101, trace = [], hass_state = Not_running, hass_started = None,
      listeners = [], purge_timer = False\<rparr>"

text \<open>A world before the first connection attempt, with the same storage.\<close>

definition boot_world :: "queue_item list \<Rightarrow> nat \<Rightarrow> world" where
  "boot_world its n =
     \<lparr>ins = (Recorder_init 100 (Some 7) ''sqlite:///home-assistant_v2.db'' Map.empty Map.empty)
              \<lparr>queue := \<lparr>items = its, unfinished_tasks = n\<rparr>\<rparr>,
      storage = \<lparr>events_table = [], states_table = [],
                 recorder_runs_table = [finished_run, crashed_run],
                 next_event_id = 1, next_state_id = 1, next_run_id = 3\<rparr>,
      clock = 101, trace = [], hass_state = Not_running, hass_started = None,
      listeners = [], purge_timer = False\<rparr>"

text \<open>
  A world in the session after the crash: the crashed run has been closed by the setup,
  and the current run is the third stored run.
\<close>

definition current_run :: recorder_runs where
  "current_run =
     \<lparr>run_id = Some 3, start = 100, run_end = None, closed_incorrect = False, created = 101\<rparr>"

definition recovered_world :: world where
  "recovered_world =
     \<lparr>ins = (Recorder_init 100 (Some 7) ''sqlite:///home-assistant_v2.db'' Map.empty Map.empty)
              \<lparr>async_db_ready := True,
               engine := Some (Engine ''sqlite:///home-assistant_v2.db'' False),
               run_info := Some current_run,
               get_session := Some Scoped_session\<rparr>,
      storage = \<lparr>events_table = [], states_table = [],
                 recorder_runs_table =
                   [finished_run, crashed_run\<lparr>closed_incorrect := True, run_end := Some 100\<rparr>,
                    current_run],
                 next_event_id = 1, next_state_id = 1, next_run_id = 4\<rparr>,
      clock = 150, trace = [], hass_state = Core_running, hass_started = Some Result_None,
      listeners = [EVENT_HOMEASSISTANT_STOP], purge_timer = True\<rparr>"

section \<open>Predicates of the start gate\<close>

text \<open>
  A host input that is neither the start nor the stop of the host; and the relation
  between two worlds of which the second differs from the first only by what listeners
  have put on the queue: nothing was taken off it, nothing was marked done, and the
  storage, the trace, the clock, the connection and the current run are the same.
\<close>

definition no_start_stop :: "bus_input \<Rightarrow> bool" where
  "no_start_stop b =
     (case b of
        Fire ev \<Rightarrow> event_type ev \<noteq> EVENT_HOMEASSISTANT_START \<and>
                   event_type ev \<noteq> EVENT_HOMEASSISTANT_STOP
      | Timer \<Rightarrow> True)"

definition only_enqueued :: "world \<Rightarrow> world \<Rightarrow> bool" where
  "only_enqueued w w' \<longleftrightarrow>
     storage w' = storage w \<and> trace w' = trace w \<and> clock w' = clock w \<and>
     engine (ins w') = engine (ins w) \<and> get_session (ins w') = get_session (ins w) \<and>
     run_info (ins w') = run_info (ins w) \<and>
     take (length (items (queue (ins w)))) (items (queue (ins w'))) = items (queue (ins w)) \<and>
     unfinished_tasks (queue (ins w')) =
       unfinished_tasks (queue (ins w)) +
       (length (items (queue (ins w'))) - length (items (queue (ins w))))"

section \<open>One pass through the loop body\<close>

lemma queue_get_frame:
  "queue_get w = Some (item, w0) \<Longrightarrow>
   storage w0 = storage w \<and> trace w0 = trace w \<and> clock w0 = clock w \<and>
   get_session (ins w0) = get_session (ins w) \<and> engine (ins w0) = engine (ins w) \<and>
   run_info (ins w0) = run_info (ins w) \<and> include_e (ins w0) = include_e (ins w) \<and>
   include_d (ins w0) = include_d (ins w) \<and> exclude (ins w0) = exclude (ins w) \<and>
   unfinished_tasks (queue (ins w0)) = unfinished_tasks (queue (ins w)) \<and>
   items (queue (ins w)) = item # items (queue (ins w0))"
  by (auto simp: queue_get_def split: list.splits)

lemma task_done_continue_frame:
  "storage (snd (task_done_continue w)) = storage w \<and>
   trace (snd (task_done_continue w)) = trace w"
  by (auto simp: task_done_continue_def task_done_def queue_task_done_def split: sum.splits)

text \<open>
  C8. A time-tick event is discarded before the filter and before any storage access:
  whatever the filter lists are and whatever \<open>split_entity_id\<close> would do with its
  entity identifier, the pass only marks the item done and goes on; the storage is as it
  was (no StoredEvent and no StoredState row is created) and nothing is committed or
  queried.
\<close>

theorem time_tick_discarded:
  assumes "queue_get w = Some (Event_item ev, w0)"
    and "event_type ev = EVENT_TIME_CHANGED"
  shows "loop_body split_entity_id purge_old_data w = task_done_continue w0 \<and>
         storage (snd (loop_body split_entity_id purge_old_data w)) = storage w \<and>
         trace (snd (loop_body split_entity_id purge_old_data w)) = trace w"
proof -
  from assms have eq: "loop_body split_entity_id purge_old_data w = task_done_continue w0"
    by (simp add: loop_body_def)
  from assms(1) have "storage w0 = storage w" and "trace w0 = trace w"
    by (simp_all add: queue_get_frame)
  with eq show ?thesis
    by (simp add: task_done_continue_frame)
qed

text \<open>
  The instance: a time tick that carries an entity identifier, with a split function
  that returns no part at all, so that evaluating the filter would raise.
\<close>

theorem time_tick_discarded_witness:
  "queue_get (recording_world Map.empty Map.empty [Event_item time_tick] 1) =
     Some (Event_item time_tick, recording_world Map.empty Map.empty [] 1) \<and>
   event_type time_tick = EVENT_TIME_CHANGED \<and>
   loop_body (\<lambda>e. []) keep_all (recording_world Map.empty Map.empty [Event_item time_tick] 1) =
     (Continue, recording_world Map.empty Map.empty [] 0) \<and>
   storage (snd (loop_body (\<lambda>e. []) keep_all
                   (recording_world Map.empty Map.empty [Event_item time_tick] 1))) =
     storage (recording_world Map.empty Map.empty [Event_item time_tick] 1)"
proof -
  have g: "queue_get (recording_world Map.empty Map.empty [Event_item time_tick] 1) =
     Some (Event_item time_tick, recording_world Map.empty Map.empty [] 1)"
    by (simp add: queue_get_def recording_world_def)
  have t: "event_type time_tick = EVENT_TIME_CHANGED"
    by (simp add: time_tick_def)
  have d: "task_done_continue (recording_world Map.empty Map.empty [] 1) =
           (Continue, recording_world Map.empty Map.empty [] 0)"
    by (simp add: task_done_continue_def task_done_def queue_task_done_def recording_world_def)
  from time_tick_discarded [OF g t, of "\<lambda>e. []" keep_all] g t d show ?thesis
    by (simp add: recording_world_def)
qed

text \<open>
  C9. An event that is not a time tick and carries no entity identifier is persisted
  exactly once as a StoredEvent, under every filter configuration: while the worker is
  connected, the pass that dequeues it appends exactly one row to the events table, the
  row built from the event with the key the storage generates.
\<close>

theorem event_without_entity_persisted_once:
  assumes "queue_get w = Some (Event_item ev, w0)"
    and "event_type ev \<noteq> EVENT_TIME_CHANGED"
    and "data ev ATTR_ENTITY_ID = None"
    and "get_session (ins w) \<noteq> None"
  shows "events_table (storage (snd (loop_body split_entity_id purge_old_data
                                        (with_filter ie idom ex w)))) =
         events_table (storage w) @
           [(Events_from_event ev)\<lparr>event_id := Some (next_event_id (storage w))\<rparr>]"
proof -
  let ?w = "with_filter ie idom ex w"
  from assms(1) have g: "queue_get ?w = Some (Event_item ev, with_filter ie idom ex w0)"
    by (auto simp: queue_get_def with_filter_def split: list.splits)
  have f: "filtered_out split_entity_id (ins (with_filter ie idom ex w0)) ev = Inr False"
    using assms(3) by (simp add: filtered_out_def)
  from assms(1,4) have s: "get_session (ins (with_filter ie idom ex w0)) \<noteq> None"
    by (auto simp: queue_get_def with_filter_def split: list.splits)
  from assms(1) have st: "storage (with_filter ie idom ex w0) = storage w"
    by (auto simp: queue_get_def with_filter_def split: list.splits)
  obtain w1 where p: "persist ev (with_filter ie idom ex w0) = Inr w1"
    and e: "events_table (storage w1) = events_table (storage w) @
           [(Events_from_event ev)\<lparr>event_id := Some (next_event_id (storage w))\<rparr>]"
    using s st
    by (auto simp: persist_def Let_def session_add_def session_commit_def flush_event_def
        flush_state_def Events_from_event_def States_from_event_def split: option.splits)
  have "loop_body split_entity_id purge_old_data ?w = task_done_continue w1"
    using g f p assms(2) by (simp add: loop_body_def)
  then show ?thesis
    using e by (simp add: task_done_continue_frame)
qed

theorem event_without_entity_persisted_once_witness:
  "queue_get (recording_world Map.empty Map.empty [Event_item (plain_event ''call_service'')] 1) =
     Some (Event_item (plain_event ''call_service''), recording_world Map.empty Map.empty [] 1) \<and>
   event_type (plain_event ''call_service'') \<noteq> EVENT_TIME_CHANGED \<and>
   data (plain_event ''call_service'') ATTR_ENTITY_ID = None \<and>
   get_session (ins (recording_world Map.empty Map.empty
                      [Event_item (plain_event ''call_service'')] 1)) \<noteq> None \<and>
   events_table (storage (snd (loop_body split_at_dot keep_all
      (with_filter [''light.kitchen''] [''sensor''] [''light'']
         (recording_world Map.empty Map.empty [Event_item (plain_event ''call_service'')] 1))))) =
     [\<lparr>event_id = Some 1, events_event_type = ''call_service'',
       events_event_data = Map.empty, events_time_fired = 120\<rparr>]"
proof -
  have g: "queue_get (recording_world Map.empty Map.empty [Event_item (plain_event ''call_service'')] 1) =
     Some (Event_item (plain_event ''call_service''), recording_world Map.empty Map.empty [] 1)"
    by (simp add: queue_get_def recording_world_def)
  have t: "event_type (plain_event ''call_service'') \<noteq> EVENT_TIME_CHANGED"
    by (simp add: plain_event_def EVENT_TIME_CHANGED_def)
  have d: "data (plain_event ''call_service'') ATTR_ENTITY_ID = None"
    by (simp add: plain_event_def)
  have s: "get_session (ins (recording_world Map.empty Map.empty
                      [Event_item (plain_event ''call_service'')] 1)) \<noteq> None"
    by (simp add: recording_world_def)
  from event_without_entity_persisted_once [OF g t d s, of split_at_dot keep_all
      "[''light.kitchen'']" "[''sensor'']" "[''light'']"] g t d s
  show ?thesis
    by (simp add: recording_world_def Events_from_event_def plain_event_def)
qed

text \<open>
  C1. For a dequeued event that carries the entity identifier \<open>e\<close> with domain \<open>d\<close>, the
  filter of the loop body decides as rules 1 to 4 of the specification do, applied in
  their order: the event is dropped exactly when \<open>spec_shouldRecord\<close> is false. For an
  event that is not a time tick this decision is what the pass does: it persists the event
  and marks it done, or only marks it done. Rule 1 comes first, and an entity listed in
  \<open>include_entities\<close> is not dropped for its excluded domain.
\<close>

theorem filter_rules_in_order:
  assumes "queue_get w = Some (Event_item ev, w0)"
    and "data ev ATTR_ENTITY_ID = Some e"
    and "split_entity_id e = d # rest"
  shows "filtered_out split_entity_id (ins w0) ev =
           Inr (\<not> spec_shouldRecord (set (include_e (ins w))) (set (include_d (ins w)))
                     (set (exclude (ins w))) e d) \<and>
         (event_type ev \<noteq> EVENT_TIME_CHANGED \<longrightarrow>
            loop_body split_entity_id purge_old_data w =
              (if spec_shouldRecord (set (include_e (ins w))) (set (include_d (ins w)))
                    (set (exclude (ins w))) e d
               then (case persist ev w0 of
                       Inl err \<Rightarrow> (Raised err, w0)
                     | Inr w1 \<Rightarrow> task_done_continue w1)
               else task_done_continue w0)) \<and>
         (d \<in> set (exclude (ins w)) \<and> e \<in> set (include_e (ins w)) \<and>
          e \<notin> set (exclude (ins w)) \<and> include_d (ins w) = [] \<longrightarrow>
            filtered_out split_entity_id (ins w0) ev = Inr False)"
proof -
  from assms(1) have cfg: "include_e (ins w0) = include_e (ins w)"
      "include_d (ins w0) = include_d (ins w)" "exclude (ins w0) = exclude (ins w)"
    by (simp_all add: queue_get_frame)
  have f: "filtered_out split_entity_id (ins w0) ev =
           Inr (\<not> spec_shouldRecord (set (include_e (ins w))) (set (include_d (ins w)))
                     (set (exclude (ins w))) e d)"
    using assms(2,3) cfg by (auto simp: filtered_out_def spec_shouldRecord_def)
  have l: "event_type ev \<noteq> EVENT_TIME_CHANGED \<longrightarrow>
            loop_body split_entity_id purge_old_data w =
              (if spec_shouldRecord (set (include_e (ins w))) (set (include_d (ins w)))
                    (set (exclude (ins w))) e d
               then (case persist ev w0 of
                       Inl err \<Rightarrow> (Raised err, w0)
                     | Inr w1 \<Rightarrow> task_done_continue w1)
               else task_done_continue w0)"
    using assms(1) f by (simp add: loop_body_def)
  have p: "d \<in> set (exclude (ins w)) \<and> e \<in> set (include_e (ins w)) \<and>
          e \<notin> set (exclude (ins w)) \<and> include_d (ins w) = [] \<longrightarrow>
            filtered_out split_entity_id (ins w0) ev = Inr False"
    using f by (auto simp: spec_shouldRecord_def)
  from f l p show ?thesis by blast
qed

text \<open>
  The instance is the scenario of the specification: the domain \<open>light\<close> is excluded,
  the entity \<open>light.kitchen\<close> is included, and a state change of \<open>light.kitchen\<close> is
  recorded.
\<close>

theorem filter_rules_in_order_witness:
  "queue_get (recording_world [CONF_ENTITIES \<mapsto> [''light.kitchen'']] [CONF_DOMAINS \<mapsto> [''light'']]
                [Event_item (state_changed ''light.kitchen'')] 1) =
     Some (Event_item (state_changed ''light.kitchen''),
           recording_world [CONF_ENTITIES \<mapsto> [''light.kitchen'']] [CONF_DOMAINS \<mapsto> [''light'']] [] 1) \<and>
   data (state_changed ''light.kitchen'') ATTR_ENTITY_ID = Some ''light.kitchen'' \<and>
   split_at_dot ''light.kitchen'' = ''light'' # [''kitchen''] \<and>
   filtered_out split_at_dot
     (ins (recording_world [CONF_ENTITIES \<mapsto> [''light.kitchen'']] [CONF_DOMAINS \<mapsto> [''light'']] [] 1))
     (state_changed ''light.kitchen'') = Inr False \<and>
   fst (loop_body split_at_dot keep_all
     (recording_world [CONF_ENTITIES \<mapsto> [''light.kitchen'']] [CONF_DOMAINS \<mapsto> [''light'']]
                [Event_item (state_changed ''light.kitchen'')] 1)) = Continue \<and>
   map event_id (events_table (storage (snd (loop_body split_at_dot keep_all
     (recording_world [CONF_ENTITIES \<mapsto> [''light.kitchen'']] [CONF_DOMAINS \<mapsto> [''light'']]
                [Event_item (state_changed ''light.kitchen'')] 1))))) = [Some 1]"
proof -
  let ?W = "recording_world [CONF_ENTITIES \<mapsto> [''light.kitchen'']] [CONF_DOMAINS \<mapsto> [''light'']]"
  have g: "queue_get (?W [Event_item (state_changed ''light.kitchen'')] 1) =
     Some (Event_item (state_changed ''light.kitchen''), ?W [] 1)"
    by (simp add: queue_get_def recording_world_def)
  have e: "data (state_changed ''light.kitchen'') ATTR_ENTITY_ID = Some ''light.kitchen''"
    by (simp add: state_changed_def)
  have d: "split_at_dot ''light.kitchen'' = ''light'' # [''kitchen'']"
    by (simp add: split_at_dot_def)
  have t: "event_type (state_changed ''light.kitchen'') \<noteq> EVENT_TIME_CHANGED"
    by (simp add: state_changed_def EVENT_TIME_CHANGED_def EVENT_STATE_CHANGED_def)
  have r: "spec_shouldRecord (set (include_e (ins (?W [Event_item (state_changed ''light.kitchen'')] 1))))
      (set (include_d (ins (?W [Event_item (state_changed ''light.kitchen'')] 1))))
      (set (exclude (ins (?W [Event_item (state_changed ''light.kitchen'')] 1))))
      ''light.kitchen'' ''light''"
    by (simp add: spec_shouldRecord_def recording_world_def Recorder_init_def dict_get_def
        CONF_ENTITIES_def CONF_DOMAINS_def)
  have p: "persist (state_changed ''light.kitchen'') (?W [] 1) =
      Inr ((?W [] 1)\<lparr>storage := session_commit
              [Events_obj (Events_from_event (state_changed ''light.kitchen'')),
               States_obj ((States_from_event (state_changed ''light.kitchen''))\<lparr>states_event_id := None\<rparr>)]
              (storage (?W [] 1)),
            trace := [Commit]\<rparr>)"
    by (simp add: persist_def recording_world_def state_changed_def session_add_def
        Events_from_event_def Let_def)
  note th = filter_rules_in_order
      [where split_entity_id = split_at_dot and purge_old_data = keep_all, OF g e d]
  from th r have f: "filtered_out split_at_dot (ins (?W [] 1)) (state_changed ''light.kitchen'') = Inr False"
    by simp
  from th r t have "loop_body split_at_dot keep_all (?W [Event_item (state_changed ''light.kitchen'')] 1) =
      (case persist (state_changed ''light.kitchen'') (?W [] 1) of
         Inl err \<Rightarrow> (Raised err, ?W [] 1)
       | Inr w1 \<Rightarrow> task_done_continue w1)"
    by simp
  then have l: "loop_body split_at_dot keep_all (?W [Event_item (state_changed ''light.kitchen'')] 1) =
      task_done_continue ((?W [] 1)\<lparr>storage := session_commit
              [Events_obj (Events_from_event (state_changed ''light.kitchen'')),
               States_obj ((States_from_event (state_changed ''light.kitchen''))\<lparr>states_event_id := None\<rparr>)]
              (storage (?W [] 1)),
            trace := [Commit]\<rparr>)"
    by (simp only: p sum.case)
  have c: "fst (loop_body split_at_dot keep_all (?W [Event_item (state_changed ''light.kitchen'')] 1)) = Continue"
    unfolding l
    by (simp add: task_done_continue_def task_done_def queue_task_done_def recording_world_def)
  have s: "map event_id (events_table (storage (snd (loop_body split_at_dot keep_all
        (?W [Event_item (state_changed ''light.kitchen'')] 1))))) = [Some 1]"
    unfolding l
    by (simp add: task_done_continue_frame session_commit_def flush_event_def flush_state_def
        Events_from_event_def States_from_event_def recording_world_def Let_def)
  from g e d f c s show ?thesis
    by blast
qed

section \<open>The loop over a queue content\<close>

lemma consume_Continue:
  "loop_body s p w = (Continue, w') \<Longrightarrow> consume s p w = consume s p w'"
  by (subst consume.simps) simp

lemma consume_stop:
  "loop_body s p w = (st, w') \<Longrightarrow> st \<noteq> Continue \<Longrightarrow> consume s p w = (st, w')"
  by (subst consume.simps) (cases st; simp)

text \<open>
  C2. The purge marker is the one item that does not mark itself complete: the branch of
  \<^verbatim>\<open>purge_task\<close> goes on with the loop without \<^verbatim>\<open>task_done\<close>. With the purge marker
  as the only item of the queue, the worker consumes it and waits on the empty queue with
  one item still counted as unfinished, so \<^verbatim>\<open>block_till_done\<close> does not return.
\<close>

theorem purge_marker_not_marked_done:
  "fst (consume split_at_dot keep_all (recording_world Map.empty Map.empty [Purge_task] 1)) = Blocked \<and>
   items (queue (ins (snd (consume split_at_dot keep_all
      (recording_world Map.empty Map.empty [Purge_task] 1))))) = [] \<and>
   unfinished_tasks (queue (ins (snd (consume split_at_dot keep_all
      (recording_world Map.empty Map.empty [Purge_task] 1))))) = 1 \<and>
   \<not> block_till_done_returns (snd (consume split_at_dot keep_all
      (recording_world Map.empty Map.empty [Purge_task] 1)))"
proof -
  let ?w1 = "(recording_world Map.empty Map.empty [] 1)\<lparr>trace := [Purge_call]\<rparr>"
  have 1: "loop_body split_at_dot keep_all (recording_world Map.empty Map.empty [Purge_task] 1) =
           (Continue, ?w1)"
    by (simp add: loop_body_def queue_get_def recording_world_def keep_all_def)
  have 2: "loop_body split_at_dot keep_all ?w1 = (Blocked, ?w1)"
    by (simp add: loop_body_def queue_get_def recording_world_def)
  have "consume split_at_dot keep_all (recording_world Map.empty Map.empty [Purge_task] 1) =
        (Blocked, ?w1)"
    using consume_Continue [OF 1] consume_stop [OF 2] by simp
  then show ?thesis
    by (simp add: block_till_done_returns_def queue_join_returns_def recording_world_def)
qed

text \<open>
  C4. Persisting a state-changed event inserts one StoredEvent and one StoredState, but
  the StoredState does not reference the StoredEvent: its \<open>event_id\<close> is copied from the
  pending event object before the storage has generated the key, so the stored row has no
  \<open>event_id\<close> while the StoredEvent has the key 1.
\<close>

theorem stored_state_lacks_event_id:
  "events_table (storage (snd (loop_body split_at_dot keep_all
      (recording_world Map.empty Map.empty [Event_item (state_changed ''light.kitchen'')] 1)))) =
     [\<lparr>event_id = Some 1, events_event_type = EVENT_STATE_CHANGED,
       events_event_data = [ATTR_ENTITY_ID \<mapsto> ''light.kitchen''], events_time_fired = 120\<rparr>] \<and>
   states_table (storage (snd (loop_body split_at_dot keep_all
      (recording_world Map.empty Map.empty [Event_item (state_changed ''light.kitchen'')] 1)))) =
     [\<lparr>state_id = Some 1, states_event_id = None, states_entity_id = Some ''light.kitchen''\<rparr>]"
  by (simp add: loop_body_def queue_get_def recording_world_def state_changed_def
      EVENT_TIME_CHANGED_def EVENT_STATE_CHANGED_def filtered_out_def split_at_dot_def
      Recorder_init_def dict_get_def persist_def session_add_def session_commit_def
      flush_event_def flush_state_def Events_from_event_def States_from_event_def Let_def
      task_done_continue_def task_done_def queue_task_done_def ATTR_ENTITY_ID_def)

section \<open>Run bookkeeping\<close>

lemma close_unfinished_length [simp]: "length (close_unfinished t rs) = length rs"
  by (induction rs) auto

lemma close_unfinished_nth:
  "k < length rs \<Longrightarrow>
   close_unfinished t rs ! k =
     (if run_end (rs ! k) = None
      then (rs ! k)\<lparr>closed_incorrect := True, run_end := Some t\<rparr>
      else rs ! k)"
proof (induction rs arbitrary: k)
  case Nil
  then show ?case by simp
next
  case (Cons r rs)
  then show ?case by (cases k) auto
qed

lemma close_unfinished_none_open:
  "filter (\<lambda>r. run_end r = None) (close_unfinished t rs) = []"
  by (induction rs) auto

lemma setup_run_result:
  assumes "get_session (ins w) \<noteq> None"
  shows "setup_run w =
     Inr (w\<lparr>ins := (ins w)\<lparr>run_info := Some
               \<lparr>run_id = Some (next_run_id (storage w)), start = recording_start (ins w),
                run_end = None, closed_incorrect = False, created = clock w\<rparr>\<rparr>,
            storage := (storage w)\<lparr>recorder_runs_table :=
               close_unfinished (recording_start (ins w)) (recorder_runs_table (storage w)) @
               [\<lparr>run_id = Some (next_run_id (storage w)), start = recording_start (ins w),
                 run_end = None, closed_incorrect = False, created = clock w\<rparr>],
               next_run_id := Suc (next_run_id (storage w))\<rparr>,
            trace := trace w @ [Query] @
               replicate (length (filter (\<lambda>run. run_end run = None) (recorder_runs_table (storage w))))
                 Log_warning @ [Commit]\<rparr>)"
  using assms by (auto simp: setup_run_def flush_run_def Let_def)

lemma replace_run_open:
  "run_end r' \<noteq> None \<Longrightarrow>
   length (filter ((\<lambda>r. run_end r = None) \<circ> (\<lambda>x. if run_id x = Some i then r' else x)) rs)
     \<le> length (filter (\<lambda>r. run_end r = None) rs)"
  by (induction rs) auto

lemma flush_closed_run_open:
  "run_end r \<noteq> None \<Longrightarrow>
   length (open_runs (snd (flush_run r db))) \<le> length (open_runs db)"
  by (auto simp: flush_run_def open_runs_def Let_def replace_run_open split: option.splits)

lemma session_commit_run: "session_commit [Runs_obj r] db = snd (flush_run r db)"
  by (simp add: session_commit_def split_beta)

lemma persist_runs:
  "persist ev w = Inr w' \<Longrightarrow>
   recorder_runs_table (storage w') = recorder_runs_table (storage w)"
  by (auto simp: persist_def Let_def session_add_def session_commit_def flush_event_def
      flush_state_def Events_from_event_def States_from_event_def split: option.splits if_splits)

lemma task_done_storage: "task_done w = Inr w' \<Longrightarrow> storage w' = storage w"
  by (auto simp: task_done_def queue_task_done_def split: sum.splits if_splits)

lemma close_run_open:
  assumes "close_run w = Inr w'"
  shows "length (open_runs (storage w')) \<le> length (open_runs (storage w))"
proof -
  from assms obtain info where
    "storage w' = snd (flush_run (info\<lparr>run_end := Some (clock w)\<rparr>) (storage w))"
    by (auto simp: close_run_def Let_def session_add_def session_commit_run
        split: option.splits)
  then show ?thesis
    by (simp add: flush_closed_run_open)
qed

lemma close_connection_storage: "close_connection w = Inr w' \<Longrightarrow> storage w' = storage w"
  by (auto simp: close_connection_def split: option.splits)

lemma loop_body_open_runs:
  assumes "\<And>now days db db'. purge_old_data now days db = Inr db' \<Longrightarrow>
             length (open_runs db') \<le> length (open_runs db)"
  shows "length (open_runs (storage (snd (loop_body split_entity_id purge_old_data w))))
           \<le> length (open_runs (storage w))"
proof (cases "queue_get w")
  case None
  then show ?thesis by (simp add: loop_body_def)
next
  case (Some a)
  obtain item w0 where a: "a = (item, w0)" by (cases a)
  with Some have st: "storage w0 = storage w" by (simp add: queue_get_frame)
  show ?thesis
  proof (cases item)
    case None_item
    show ?thesis
      using Some a None_item st
      by (auto simp: loop_body_def split: sum.splits
          dest!: close_run_open close_connection_storage task_done_storage)
  next
    case Purge_task
    show ?thesis
      using Some a Purge_task st assms
      by (auto simp: loop_body_def split: sum.splits)
  next
    case (Event_item ev)
    show ?thesis
      using Some a Event_item st
      by (auto simp: loop_body_def task_done_continue_frame open_runs_def
          split: sum.splits bool.splits dest!: persist_runs)
  qed
qed

lemma passes_open_runs:
  assumes "\<And>now days db db'. purge_old_data now days db = Inr db' \<Longrightarrow>
             length (open_runs db') \<le> length (open_runs db)"
  shows "length (open_runs (storage (snd (passes k split_entity_id purge_old_data w))))
           \<le> length (open_runs (storage w))"
proof (induction k arbitrary: w)
  case 0
  then show ?case by simp
next
  case (Suc k)
  obtain st w' where lb: "loop_body split_entity_id purge_old_data w = (st, w')"
    by (cases "loop_body split_entity_id purge_old_data w")
  have "length (open_runs (storage (snd (loop_body split_entity_id purge_old_data w))))
          \<le> length (open_runs (storage w))"
    by (rule loop_body_open_runs) (rule assms)
  with lb have le: "length (open_runs (storage w')) \<le> length (open_runs (storage w))"
    by simp
  show ?case
  proof (cases "st = Continue")
    case True
    with lb have "passes (Suc k) split_entity_id purge_old_data w =
                  passes k split_entity_id purge_old_data w'"
      by simp
    with Suc.IH [of w'] le show ?thesis by simp
  next
    case False
    with lb have "passes (Suc k) split_entity_id purge_old_data w = (st, w')"
      by (cases st) simp_all
    with le show ?thesis by simp
  qed
qed

text \<open>
  C5. After \<^verbatim>\<open>_setup_run\<close>, every stored run that had no end has \<open>closed_incorrect\<close> set
  and ends at \<open>recording_start\<close> (the other rows are as they were), and exactly one
  stored run has no end: the new run, which starts at \<open>recording_start\<close> and is the
  in-memory current run. From then on, after any number of passes of the consume loop,
  at most one stored run has no end, provided the purge routine does not add open runs.
\<close>

theorem setup_run_recovers_open_runs:
  assumes su: "setup_run w = Inr w1"
    and purge: "\<forall>now days db db'. purge_old_data now days db = Inr db' \<longrightarrow>
                  length (open_runs db') \<le> length (open_runs db)"
  shows "(\<forall>k<length (recorder_runs_table (storage w)).
            recorder_runs_table (storage w1) ! k =
              (if run_end (recorder_runs_table (storage w) ! k) = None
               then (recorder_runs_table (storage w) ! k)
                      \<lparr>closed_incorrect := True, run_end := Some (recording_start (ins w))\<rparr>
               else recorder_runs_table (storage w) ! k)) \<and>
         open_runs (storage w1) =
           [\<lparr>run_id = Some (next_run_id (storage w)), start = recording_start (ins w),
             run_end = None, closed_incorrect = False, created = clock w\<rparr>] \<and>
         run_info (ins w1) =
           Some \<lparr>run_id = Some (next_run_id (storage w)), start = recording_start (ins w),
                 run_end = None, closed_incorrect = False, created = clock w\<rparr> \<and>
         (\<forall>k w2. storage w2 = storage w1 \<longrightarrow>
            length (open_runs (storage (snd (passes k split_entity_id purge_old_data w2)))) \<le> 1)"
proof -
  from su have gs: "get_session (ins w) \<noteq> None"
    by (auto simp: setup_run_def split: option.splits)
  note r = setup_run_result [OF gs]
  from su r have tab: "recorder_runs_table (storage w1) =
      close_unfinished (recording_start (ins w)) (recorder_runs_table (storage w)) @
      [\<lparr>run_id = Some (next_run_id (storage w)), start = recording_start (ins w),
        run_end = None, closed_incorrect = False, created = clock w\<rparr>]"
    by auto
  have a: "\<forall>k<length (recorder_runs_table (storage w)).
            recorder_runs_table (storage w1) ! k =
              (if run_end (recorder_runs_table (storage w) ! k) = None
               then (recorder_runs_table (storage w) ! k)
                      \<lparr>closed_incorrect := True, run_end := Some (recording_start (ins w))\<rparr>
               else recorder_runs_table (storage w) ! k)"
    by (simp add: tab nth_append close_unfinished_nth)
  have b: "open_runs (storage w1) =
           [\<lparr>run_id = Some (next_run_id (storage w)), start = recording_start (ins w),
             run_end = None, closed_incorrect = False, created = clock w\<rparr>]"
    by (simp add: open_runs_def tab close_unfinished_none_open)
  from su r have c: "run_info (ins w1) =
           Some \<lparr>run_id = Some (next_run_id (storage w)), start = recording_start (ins w),
                 run_end = None, closed_incorrect = False, created = clock w\<rparr>"
    by auto
  have d: "\<forall>k w2. storage w2 = storage w1 \<longrightarrow>
            length (open_runs (storage (snd (passes k split_entity_id purge_old_data w2)))) \<le> 1"
  proof (intro allI impI)
    fix k and w2 :: world
    assume eq: "storage w2 = storage w1"
    have "length (open_runs (storage (snd (passes k split_entity_id purge_old_data w2))))
            \<le> length (open_runs (storage w2))"
      by (rule passes_open_runs) (simp add: purge)
    with eq b show "length (open_runs (storage (snd (passes k split_entity_id purge_old_data w2)))) \<le> 1"
      by simp
  qed
  from a b c d show ?thesis by blast
qed

theorem setup_run_recovers_open_runs_witness:
  "\<exists>w1. setup_run (restart_world [Event_item (plain_event ''call_service''), None_item] 2) = Inr w1 \<and>
     recorder_runs_table (storage w1) ! 0 = finished_run \<and>
     recorder_runs_table (storage w1) ! 1 =
       crashed_run\<lparr>closed_incorrect := True, run_end := Some 100\<rparr> \<and>
     open_runs (storage w1) =
       [\<lparr>run_id = Some 3, start = 100, run_end = None, closed_incorrect = False, created = 101\<rparr>] \<and>
     length (open_runs (storage (snd (passes 2 split_at_dot keep_all w1)))) \<le> 1"
proof -
  let ?W = "restart_world [Event_item (plain_event ''call_service''), None_item] 2"
  have "get_session (ins ?W) \<noteq> None"
    by (simp add: restart_world_def)
  then obtain w1 where su: "setup_run ?W = Inr w1"
    by (auto simp: setup_run_result)
  have purge: "\<forall>now days db db'. keep_all now days db = Inr db' \<longrightarrow>
                  length (open_runs db') \<le> length (open_runs db)"
    by (simp add: keep_all_def)
  note th = setup_run_recovers_open_runs
    [where purge_old_data = keep_all and split_entity_id = split_at_dot, OF su purge]
  have tab: "recorder_runs_table (storage ?W) = [finished_run, crashed_run]"
    and rs: "recording_start (ins ?W) = 100" and cl: "clock ?W = 101"
    and nx: "next_run_id (storage ?W) = 3"
    by (simp_all add: restart_world_def Recorder_init_def)
  from th have nth: "\<forall>k<length (recorder_runs_table (storage ?W)).
            recorder_runs_table (storage w1) ! k =
              (if run_end (recorder_runs_table (storage ?W) ! k) = None
               then (recorder_runs_table (storage ?W) ! k)
                      \<lparr>closed_incorrect := True, run_end := Some (recording_start (ins ?W))\<rparr>
               else recorder_runs_table (storage ?W) ! k)"
    by blast
  from nth have a0: "recorder_runs_table (storage w1) ! 0 = finished_run"
    unfolding tab rs by (simp add: finished_run_def)
  from nth have "1 < length (recorder_runs_table (storage ?W)) \<longrightarrow>
       recorder_runs_table (storage w1) ! 1 =
              (if run_end (recorder_runs_table (storage ?W) ! 1) = None
               then (recorder_runs_table (storage ?W) ! 1)
                      \<lparr>closed_incorrect := True, run_end := Some (recording_start (ins ?W))\<rparr>
               else recorder_runs_table (storage ?W) ! 1)"
    by blast
  then have a1: "recorder_runs_table (storage w1) ! 1 =
       crashed_run\<lparr>closed_incorrect := True, run_end := Some 100\<rparr>"
    unfolding tab rs by (simp add: crashed_run_def)
  from th have b: "open_runs (storage w1) =
       [\<lparr>run_id = Some 3, start = 100, run_end = None, closed_incorrect = False, created = 101\<rparr>]"
    unfolding rs cl nx by simp
  from th have c: "length (open_runs (storage (snd (passes 2 split_at_dot keep_all w1)))) \<le> 1"
    by blast
  from su a0 a1 b c show ?thesis by blast
qed

text \<open>
  C7. When the worker dequeues the stop marker while it is connected and its current run
  is stored under the key \<open>i\<close>, the pass returns: it first sets the end of the current run
  to the clock and commits it (every stored run with the key \<open>i\<close> then has this end),
  then disposes the engine; afterwards the in-memory run, the engine and the session
  factory are released, and the marker is marked done.
\<close>

theorem stop_marker_closes_run_and_connection:
  assumes "queue_get w = Some (None_item, w0)"
    and "run_info (ins w) = Some info"
    and "run_id info = Some i"
    and "get_session (ins w) \<noteq> None"
    and "engine (ins w) \<noteq> None"
    and "0 < unfinished_tasks (queue (ins w))"
  shows "\<exists>w'. loop_body split_entity_id purge_old_data w = (Returned, w') \<and>
           trace w' = trace w @ [Commit, Dispose] \<and>
           recorder_runs_table (storage w') =
             map (\<lambda>x. if run_id x = Some i then info\<lparr>run_end := Some (clock w)\<rparr> else x)
               (recorder_runs_table (storage w)) \<and>
           (\<forall>r \<in> set (recorder_runs_table (storage w')).
              run_id r = Some i \<longrightarrow> run_end r = Some (clock w)) \<and>
           run_info (ins w') = None \<and> engine (ins w') = None \<and>
           get_session (ins w') = None \<and>
           items (queue (ins w')) = items (queue (ins w0)) \<and>
           unfinished_tasks (queue (ins w')) = unfinished_tasks (queue (ins w)) - 1"
proof -
  note f = queue_get_frame [OF assms(1)]
  let ?info = "info\<lparr>run_end := Some (clock w)\<rparr>"
  let ?w1 = "w0\<lparr>ins := (ins w0)\<lparr>run_info := None\<rparr>,
                 storage := snd (flush_run ?info (storage w)),
                 trace := trace w @ [Commit]\<rparr>"
  let ?w2 = "?w1\<lparr>ins := (ins ?w1)\<lparr>engine := None, get_session := None\<rparr>,
                  trace := trace w @ [Commit, Dispose]\<rparr>"
  let ?w3 = "?w2\<lparr>ins := (ins ?w2)\<lparr>queue := (queue (ins ?w2))
                  \<lparr>unfinished_tasks := unfinished_tasks (queue (ins w)) - 1\<rparr>\<rparr>\<rparr>"
  have cr: "close_run w0 = Inr ?w1"
    using f assms(2,4)
    by (auto simp: close_run_def Let_def session_add_def session_commit_run split: option.splits)
  have cc: "close_connection ?w1 = Inr ?w2"
    using f assms(5) by (auto simp: close_connection_def split: option.splits)
  have td: "task_done ?w2 = Inr ?w3"
    using f assms(6) by (simp add: task_done_def queue_task_done_def)
  have lb: "loop_body split_entity_id purge_old_data w = (Returned, ?w3)"
    using assms(1) by (simp only: loop_body_def option.case prod.case queue_item.case cr cc td sum.case)
  have tab: "recorder_runs_table (storage ?w3) =
             map (\<lambda>x. if run_id x = Some i then ?info else x) (recorder_runs_table (storage w))"
    using assms(3) by (simp add: flush_run_def)
  have closed: "\<forall>r \<in> set (recorder_runs_table (storage ?w3)).
              run_id r = Some i \<longrightarrow> run_end r = Some (clock w)"
    unfolding tab using assms(3) by auto
  show ?thesis
    using lb tab closed by (intro exI [of _ ?w3]) simp
qed

theorem stop_marker_closes_run_and_connection_witness:
  "queue_get (recording_world Map.empty Map.empty [None_item] 1) =
     Some (None_item, recording_world Map.empty Map.empty [] 1) \<and>
   run_info (ins (recording_world Map.empty Map.empty [None_item] 1)) = Some first_run \<and>
   run_id first_run = Some 1 \<and>
   get_session (ins (recording_world Map.empty Map.empty [None_item] 1)) \<noteq> None \<and>
   engine (ins (recording_world Map.empty Map.empty [None_item] 1)) \<noteq> None \<and>
   0 < unfinished_tasks (queue (ins (recording_world Map.empty Map.empty [None_item] 1))) \<and>
   (\<exists>w'. loop_body split_at_dot keep_all (recording_world Map.empty Map.empty [None_item] 1) =
           (Returned, w') \<and>
         trace w' = [Commit, Dispose] \<and>
         recorder_runs_table (storage w') = [first_run\<lparr>run_end := Some 150\<rparr>] \<and>
         run_info (ins w') = None \<and> engine (ins w') = None \<and> get_session (ins w') = None \<and>
         block_till_done_returns w')"
proof -
  let ?W = "recording_world Map.empty Map.empty [None_item] 1"
  have g: "queue_get ?W = Some (None_item, recording_world Map.empty Map.empty [] 1)"
    by (simp add: queue_get_def recording_world_def)
  have r: "run_info (ins ?W) = Some first_run"
    by (simp add: recording_world_def)
  have i: "run_id first_run = Some 1"
    by (simp add: first_run_def)
  have s: "get_session (ins ?W) \<noteq> None"
    by (simp add: recording_world_def)
  have e: "engine (ins ?W) \<noteq> None"
    by (simp add: recording_world_def)
  have u: "0 < unfinished_tasks (queue (ins ?W))"
    by (simp add: recording_world_def)
  have tab: "recorder_runs_table (storage ?W) = [first_run]" and cl: "clock ?W = 150"
    and tr: "trace ?W = []" and un: "unfinished_tasks (queue (ins ?W)) = 1"
    by (simp_all add: recording_world_def)
  from stop_marker_closes_run_and_connection
    [where split_entity_id = split_at_dot and purge_old_data = keep_all, OF g r i s e u]
  obtain w' where lb: "loop_body split_at_dot keep_all ?W = (Returned, w')"
    and t: "trace w' = trace ?W @ [Commit, Dispose]"
    and rt: "recorder_runs_table (storage w') =
             map (\<lambda>x. if run_id x = Some 1 then first_run\<lparr>run_end := Some (clock ?W)\<rparr> else x)
               (recorder_runs_table (storage ?W))"
    and rest: "run_info (ins w') = None" "engine (ins w') = None" "get_session (ins w') = None"
    and ut: "unfinished_tasks (queue (ins w')) = unfinished_tasks (queue (ins ?W)) - 1"
    by blast
  have t': "trace w' = [Commit, Dispose]"
    using t unfolding tr by simp
  have rt': "recorder_runs_table (storage w') = [first_run\<lparr>run_end := Some 150\<rparr>]"
    using rt unfolding tab cl by (simp add: first_run_def)
  have b: "block_till_done_returns w'"
    using ut unfolding un by (simp add: block_till_done_returns_def queue_join_returns_def)
  from g r i s e u lb t' rt' rest b show ?thesis by blast
qed

section \<open>The retry loop\<close>

lemma count_list_replicate_other: "a \<noteq> b \<Longrightarrow> count_list (replicate n a) b = 0"
  by (induction n) auto

lemma try_setup_Succeeds:
  "try_setup Succeeds w =
     (True, (projr (setup_run (setup_connection w)))
              \<lparr>ins := (ins (projr (setup_run (setup_connection w))))\<lparr>async_db_ready := True\<rparr>,
               trace := trace (projr (setup_run (setup_connection w))) @ [Db_ready_set]\<rparr>)"
proof -
  have "get_session (ins (setup_connection w)) \<noteq> None"
    by (simp add: setup_connection_def)
  then show ?thesis
    by (simp add: try_setup_def setup_run_result)
qed

lemma try_setup_fail_frame:
  assumes "a \<noteq> Succeeds"
  shows "\<exists>w'. try_setup a w = (False, w') \<and> trace w' = trace w \<and> clock w' = clock w \<and>
           async_db_ready (ins w') = async_db_ready (ins w) \<and> storage w' = storage w \<and>
           queue (ins w') = queue (ins w) \<and> run_info (ins w') = run_info (ins w)"
  using assms by (cases a) (simp_all add: try_setup_def setup_connection_def)

lemma connect_loop_ok_step:
  "try_setup (attempts n) w = (True, w1) \<Longrightarrow> connect_loop attempts n retry w = Some (True, w1)"
  by (subst connect_loop.simps) simp

lemma connect_loop_fail_step:
  "try_setup (attempts n) w = (False, w1) \<Longrightarrow>
   connect_loop attempts n retry w =
     (if locals_setdefault_retry retry 10 - 1 = 0
      then Some (False, (log_and_sleep w1)\<lparr>trace := trace (log_and_sleep w1) @ [failure_notice]\<rparr>)
      else connect_loop attempts (Suc n) (Some (locals_setdefault_retry retry 10 - 1))
             (log_and_sleep w1))"
  by (subst connect_loop.simps) (simp add: Let_def)

lemma connect_loop_exhausted:
  assumes "\<forall>k<m. attempts (n + k) \<noteq> Succeeds"
    and "locals_setdefault_retry retry 10 = int m"
    and "0 < m"
  shows "\<exists>w'. connect_loop attempts n retry w = Some (False, w') \<and>
           trace w' = trace w @ concat (replicate m [Log_error, Sleep CONNECT_RETRY_WAIT]) @
                        [failure_notice] \<and>
           async_db_ready (ins w') = async_db_ready (ins w) \<and>
           storage w' = storage w \<and> queue (ins w') = queue (ins w) \<and>
           run_info (ins w') = run_info (ins w) \<and>
           clock w' = clock w + int m * CONNECT_RETRY_WAIT"
  using assms
proof (induction m arbitrary: n retry w)
  case 0
  then show ?case by simp
next
  case (Suc m)
  from Suc.prems(1) have "attempts n \<noteq> Succeeds"
    by (metis add.right_neutral zero_less_Suc)
  from try_setup_fail_frame [OF this, of w] obtain w1 where
    ts: "try_setup (attempts n) w = (False, w1)" and
    fr: "trace w1 = trace w" "clock w1 = clock w"
      "async_db_ready (ins w1) = async_db_ready (ins w)" "storage w1 = storage w"
      "queue (ins w1) = queue (ins w)" "run_info (ins w1) = run_info (ins w)"
    by blast
  note step = connect_loop_fail_step [where attempts = attempts and n = n and retry = retry, OF ts]
  show ?case
  proof (cases "m = 0")
    case True
    with Suc.prems(2) have "locals_setdefault_retry retry 10 - 1 = 0" by simp
    with step True fr show ?thesis
      by (simp add: log_and_sleep_def)
  next
    case False
    with Suc.prems(2) have ne: "locals_setdefault_retry retry 10 - 1 \<noteq> 0"
      and nx: "locals_setdefault_retry (Some (locals_setdefault_retry retry 10 - 1)) 10 = int m"
      by (simp_all add: locals_setdefault_retry_def)
    from Suc.prems(1) have all: "\<forall>k<m. attempts (Suc n + k) \<noteq> Succeeds"
      by (metis Suc_less_eq add_Suc_shift)
    from False have "0 < m" by simp
    from Suc.IH [OF all nx this, of "log_and_sleep w1"] obtain w' where
      r: "connect_loop attempts (Suc n) (Some (locals_setdefault_retry retry 10 - 1)) (log_and_sleep w1)
            = Some (False, w')" and
      t: "trace w' = trace (log_and_sleep w1) @
            concat (replicate m [Log_error, Sleep CONNECT_RETRY_WAIT]) @ [failure_notice]" and
      o: "async_db_ready (ins w') = async_db_ready (ins (log_and_sleep w1))"
         "storage w' = storage (log_and_sleep w1)" "queue (ins w') = queue (ins (log_and_sleep w1))"
         "run_info (ins w') = run_info (ins (log_and_sleep w1))"
         "clock w' = clock (log_and_sleep w1) + int m * CONNECT_RETRY_WAIT"
      by blast
    from step ne r have "connect_loop attempts n retry w = Some (False, w')" by simp
    with t o fr show ?thesis
      by (simp add: log_and_sleep_def algebra_simps)
  qed
qed

lemma connect_loop_success:
  assumes "\<forall>j<k. attempts (n + j) \<noteq> Succeeds"
    and "attempts (n + k) = Succeeds"
    and "locals_setdefault_retry retry 10 = int m"
    and "k < m"
  shows "\<exists>w'. connect_loop attempts n retry w = Some (True, w') \<and>
           async_db_ready (ins w') \<and> get_session (ins w') \<noteq> None \<and>
           engine (ins w') \<noteq> None \<and>
           (\<exists>info. run_info (ins w') = Some info \<and> open_runs (storage w') = [info]) \<and>
           count_list (trace w') (Sleep CONNECT_RETRY_WAIT) =
             count_list (trace w) (Sleep CONNECT_RETRY_WAIT) + k"
  using assms
proof (induction k arbitrary: n retry w m)
  case 0
  then have a: "attempts n = Succeeds" by simp
  have "get_session (ins (setup_connection w)) \<noteq> None"
    by (simp add: setup_connection_def)
  note sr = setup_run_result [OF this]
  let ?w1 = "snd (try_setup Succeeds w)"
  have "try_setup (attempts n) w = (True, ?w1)"
    using a by (simp add: try_setup_Succeeds)
  then have "connect_loop attempts n retry w = Some (True, ?w1)"
    by (rule connect_loop_ok_step)
  moreover have "async_db_ready (ins ?w1) \<and> get_session (ins ?w1) \<noteq> None \<and>
      engine (ins ?w1) \<noteq> None \<and>
      (\<exists>info. run_info (ins ?w1) = Some info \<and> open_runs (storage ?w1) = [info]) \<and>
      count_list (trace ?w1) (Sleep CONNECT_RETRY_WAIT) =
        count_list (trace w) (Sleep CONNECT_RETRY_WAIT)"
    unfolding try_setup_Succeeds sr
    by (simp add: setup_connection_def count_list_replicate_other open_runs_def
        close_unfinished_none_open)
  ultimately show ?case by simp
next
  case (Suc k)
  from Suc.prems(1) have "attempts n \<noteq> Succeeds"
    by (metis add.right_neutral zero_less_Suc)
  from try_setup_fail_frame [OF this, of w] obtain w1 where
    ts: "try_setup (attempts n) w = (False, w1)" and
    fr: "trace w1 = trace w"
    by blast
  note step = connect_loop_fail_step [where attempts = attempts and n = n and retry = retry, OF ts]
  from Suc.prems(3,4) have ne: "locals_setdefault_retry retry 10 - 1 \<noteq> 0"
    and nx: "locals_setdefault_retry (Some (locals_setdefault_retry retry 10 - 1)) 10 = int (m - 1)"
    and lt: "k < m - 1"
    by (simp_all add: locals_setdefault_retry_def)
  from Suc.prems(1) have all: "\<forall>j<k. attempts (Suc n + j) \<noteq> Succeeds"
    by (metis Suc_less_eq add_Suc_shift)
  from Suc.prems(2) have ok: "attempts (Suc n + k) = Succeeds" by simp
  from Suc.IH [OF all ok nx lt, of "log_and_sleep w1"] obtain w' where
    r: "connect_loop attempts (Suc n) (Some (locals_setdefault_retry retry 10 - 1)) (log_and_sleep w1)
          = Some (True, w')" and
    o: "async_db_ready (ins w')" "get_session (ins w') \<noteq> None" "engine (ins w') \<noteq> None"
       "\<exists>info. run_info (ins w') = Some info \<and> open_runs (storage w') = [info]" and
    c: "count_list (trace w') (Sleep CONNECT_RETRY_WAIT) =
          count_list (trace (log_and_sleep w1)) (Sleep CONNECT_RETRY_WAIT) + k"
    by blast
  from step ne r have "connect_loop attempts n retry w = Some (True, w')" by simp
  with o c fr show ?case
    by (simp add: log_and_sleep_def)
qed

lemma connect_loop_cases:
  fixes attempts :: "nat \<Rightarrow> attempt"
  shows "(\<forall>k<10. attempts k \<noteq> Succeeds) \<or>
   (\<exists>k<10. (\<forall>j<k. attempts j \<noteq> Succeeds) \<and> attempts k = Succeeds)"
proof (cases "\<exists>k. k < 10 \<and> attempts k = Succeeds")
  case True
  then obtain k where "k < 10 \<and> attempts k = Succeeds"
    and "\<forall>j<k. \<not> (j < 10 \<and> attempts j = Succeeds)"
    by (auto simp: exists_least_iff [of "\<lambda>k::nat. k < 10 \<and> attempts k = Succeeds"])
  then show ?thesis
    by (metis less_trans)
next
  case False
  then show ?thesis by blast
qed

lemma first_retry: "locals_setdefault_retry None 10 = int 10"
  by (simp add: locals_setdefault_retry_def)

text \<open>
  C3. The connection setup is retried after a failure with the fixed backoff
  \<open>CONNECT_RETRY_WAIT\<close> = 10, and the retries are bounded: for every sequence of
  outcomes the loop returns; when an attempt among the first ten succeeds, the failures
  before it were each followed by one sleep of 10 and the readiness flag is set; when the
  first ten attempts fail, the loop gives up after exactly ten log records and ten sleeps
  of 10, emits the notification, and the thread returns with the readiness flag as it
  was, the storage and the queue untouched.
\<close>

theorem connection_retry_bounded:
  "(\<exists>ok w'. connect_loop attempts 0 None w = Some (ok, w')) \<and>
   (\<forall>k<10. (\<forall>j<k. attempts j \<noteq> Succeeds) \<and> attempts k = Succeeds \<longrightarrow>
      (\<exists>w'. connect_loop attempts 0 None w = Some (True, w') \<and> async_db_ready (ins w') \<and>
            count_list (trace w') (Sleep CONNECT_RETRY_WAIT) =
              count_list (trace w) (Sleep CONNECT_RETRY_WAIT) + k)) \<and>
   ((\<forall>k<10. attempts k \<noteq> Succeeds) \<longrightarrow>
      (\<exists>w'. connect_loop attempts 0 None w = Some (False, w') \<and>
            run split_entity_id purge_old_data attempts bus w = Some (Returned, w') \<and>
            trace w' = trace w @ concat (replicate 10 [Log_error, Sleep CONNECT_RETRY_WAIT]) @
                         [failure_notice] \<and>
            async_db_ready (ins w') = async_db_ready (ins w) \<and>
            storage w' = storage w \<and> queue (ins w') = queue (ins w)))"
proof -
  have ok: "\<exists>w'. connect_loop attempts 0 None w = Some (True, w') \<and> async_db_ready (ins w') \<and>
            count_list (trace w') (Sleep CONNECT_RETRY_WAIT) =
              count_list (trace w) (Sleep CONNECT_RETRY_WAIT) + k"
    if "k < 10" and "\<forall>j<k. attempts j \<noteq> Succeeds" and "attempts k = Succeeds" for k
    using connect_loop_success [of k attempts 0 None 10 w] that first_retry
    by auto
  have bad: "\<exists>w'. connect_loop attempts 0 None w = Some (False, w') \<and>
            run split_entity_id purge_old_data attempts bus w = Some (Returned, w') \<and>
            trace w' = trace w @ concat (replicate 10 [Log_error, Sleep CONNECT_RETRY_WAIT]) @
                         [failure_notice] \<and>
            async_db_ready (ins w') = async_db_ready (ins w) \<and>
            storage w' = storage w \<and> queue (ins w') = queue (ins w)"
    if "\<forall>k<10. attempts k \<noteq> Succeeds"
  proof -
    from connect_loop_exhausted [of 10 attempts 0 None w] that first_retry
    obtain w' where c: "connect_loop attempts 0 None w = Some (False, w')"
      and p: "trace w' = trace w @ concat (replicate 10 [Log_error, Sleep CONNECT_RETRY_WAIT]) @
                         [failure_notice]"
        "async_db_ready (ins w') = async_db_ready (ins w)"
        "storage w' = storage w" "queue (ins w') = queue (ins w)"
      by auto
    from c have "run split_entity_id purge_old_data attempts bus w = Some (Returned, w')"
      by (simp add: run_def)
    with c p show ?thesis by blast
  qed
  have total: "\<exists>ok w'. connect_loop attempts 0 None w = Some (ok, w')"
    using connect_loop_cases [of attempts] ok bad by blast
  from total ok bad show ?thesis by blast
qed

theorem connection_retry_bounded_witness:
  "\<exists>w'. run split_at_dot keep_all (\<lambda>n. Migrate_fails) [] (boot_world [] 0) = Some (Returned, w') \<and>
     trace w' = [Log_error, Sleep 10, Log_error, Sleep 10, Log_error, Sleep 10, Log_error, Sleep 10,
                 Log_error, Sleep 10, Log_error, Sleep 10, Log_error, Sleep 10, Log_error, Sleep 10,
                 Log_error, Sleep 10, Log_error, Sleep 10,
                 Notification ''The recorder could not start, please check the log'' ''Recorder''] \<and>
     \<not> async_db_ready (ins w') \<and> storage w' = storage (boot_world [] 0)"
proof -
  have "\<forall>k<10. (\<lambda>n. Migrate_fails) k \<noteq> Succeeds"
    by simp
  with connection_retry_bounded
    [of "\<lambda>n. Migrate_fails" "boot_world [] 0" split_at_dot keep_all "[]"]
  obtain w' where "run split_at_dot keep_all (\<lambda>n. Migrate_fails) [] (boot_world [] 0) = Some (Returned, w')"
    and "trace w' = trace (boot_world [] 0) @
           concat (replicate 10 [Log_error, Sleep CONNECT_RETRY_WAIT]) @ [failure_notice]"
    and "async_db_ready (ins w') = async_db_ready (ins (boot_world [] 0))"
    and "storage w' = storage (boot_world [] 0)"
    by blast
  then show ?thesis
    by (simp add: boot_world_def Recorder_init_def CONNECT_RETRY_WAIT_def failure_notice_def
        numeral_eq_Suc)
qed

section \<open>The start gate\<close>

lemma only_enqueued_refl: "only_enqueued w w"
  by (simp add: only_enqueued_def)

lemma take_prefix_length: "take (length a) b = a \<Longrightarrow> length a \<le> length b"
  by (metis length_take min.cobounded1)

lemma take_prefix_trans:
  assumes "take (length a) b = a" and "take (length b) c = b"
  shows "take (length a) c = a"
proof -
  from assms(1) have "length a \<le> length b" by (rule take_prefix_length)
  then have "take (length a) c = take (length a) (take (length b) c)"
    by (simp add: min_def)
  with assms show ?thesis by simp
qed

lemma only_enqueued_trans:
  assumes "only_enqueued a b" and "only_enqueued b c"
  shows "only_enqueued a c"
proof -
  let ?ia = "items (queue (ins a))" and ?ib = "items (queue (ins b))"
    and ?ic = "items (queue (ins c))"
  from assms(1) have ab: "take (length ?ia) ?ib = ?ia"
    and uab: "unfinished_tasks (queue (ins b)) =
              unfinished_tasks (queue (ins a)) + (length ?ib - length ?ia)"
    and fab: "storage b = storage a" "trace b = trace a" "clock b = clock a"
      "engine (ins b) = engine (ins a)" "get_session (ins b) = get_session (ins a)"
      "run_info (ins b) = run_info (ins a)"
    by (simp_all add: only_enqueued_def)
  from assms(2) have bc: "take (length ?ib) ?ic = ?ib"
    and ubc: "unfinished_tasks (queue (ins c)) =
              unfinished_tasks (queue (ins b)) + (length ?ic - length ?ib)"
    and fbc: "storage c = storage b" "trace c = trace b" "clock c = clock b"
      "engine (ins c) = engine (ins b)" "get_session (ins c) = get_session (ins b)"
      "run_info (ins c) = run_info (ins b)"
    by (simp_all add: only_enqueued_def)
  from ab have la: "length ?ia \<le> length ?ib" by (rule take_prefix_length)
  from bc have lb: "length ?ib \<le> length ?ic" by (rule take_prefix_length)
  have ac: "take (length ?ia) ?ic = ?ia"
    using ab bc by (rule take_prefix_trans)
  have uac: "unfinished_tasks (queue (ins c)) =
              unfinished_tasks (queue (ins a)) + (length ?ic - length ?ia)"
    using uab ubc la lb by arith
  show ?thesis
    unfolding only_enqueued_def using ac uac fab fbc by simp
qed

lemma connect_loop_True_props:
  assumes "connect_loop attempts 0 None w = Some (True, w1)"
  shows "async_db_ready (ins w1) \<and> get_session (ins w1) \<noteq> None \<and> engine (ins w1) \<noteq> None \<and>
         (\<exists>info. run_info (ins w1) = Some info \<and> open_runs (storage w1) = [info])"
proof -
  from connect_loop_cases [of attempts] show ?thesis
  proof
    assume "\<forall>k<10. attempts k \<noteq> Succeeds"
    with connect_loop_exhausted [of 10 attempts 0 None w] first_retry assms
    show ?thesis by auto
  next
    assume "\<exists>k<10. (\<forall>j<k. attempts j \<noteq> Succeeds) \<and> attempts k = Succeeds"
    then obtain k where "k < 10" "\<forall>j<k. attempts j \<noteq> Succeeds" "attempts k = Succeeds"
      by blast
    with connect_loop_success [of k attempts 0 None 10 w] first_retry assms
    show ?thesis by auto
  qed
qed

lemma register_gate:
  assumes "hass_state w \<noteq> Core_running" and "hass_started w = None"
  shows "hass_started (register w) = None \<and>
         EVENT_HOMEASSISTANT_STOP \<in> set (listeners (register w)) \<and>
         only_enqueued w (register w)"
  using assms by (simp add: register_def Let_def only_enqueued_def)

lemma dispatch_other:
  assumes "no_start_stop b" and "hass_started w = None"
    and "EVENT_HOMEASSISTANT_STOP \<in> set (listeners w)"
  shows "hass_started (dispatch b w) = None \<and>
         EVENT_HOMEASSISTANT_STOP \<in> set (listeners (dispatch b w)) \<and>
         only_enqueued w (dispatch b w)"
proof (cases b)
  case (Fire ev)
  with assms show ?thesis
    by (auto simp: no_start_stop_def event_listener_def queue_put_def Let_def only_enqueued_def)
next
  case Timer
  with assms show ?thesis
    by (auto simp: do_purge_def queue_put_def only_enqueued_def)
qed

lemma dispatch_stop:
  assumes "event_type ev = EVENT_HOMEASSISTANT_STOP" and "hass_started w = None"
    and "EVENT_HOMEASSISTANT_STOP \<in> set (listeners w)"
  shows "hass_started (dispatch (Fire ev) w) = Some Shutdown_task \<and>
         only_enqueued w (dispatch (Fire ev) w)"
  using assms
  by (simp add: event_listener_def shutdown_def queue_put_def Let_def only_enqueued_def)

lemma await_stop_first:
  assumes "list_all no_start_stop pre" and "event_type ev = EVENT_HOMEASSISTANT_STOP"
    and "hass_started w = None" and "EVENT_HOMEASSISTANT_STOP \<in> set (listeners w)"
  shows "\<exists>w'. await_hass_started (pre @ Fire ev # post) w = (Some Shutdown_task, post, w') \<and>
           only_enqueued w w'"
  using assms
proof (induction pre arbitrary: w)
  case Nil
  from dispatch_stop [OF Nil(2,3,4)]
  have d: "hass_started (dispatch (Fire ev) w) = Some Shutdown_task"
    and e: "only_enqueued w (dispatch (Fire ev) w)"
    by simp_all
  have "await_hass_started (Fire ev # post) w = (Some Shutdown_task, post, dispatch (Fire ev) w)"
    using Nil(3) d by (cases post) simp_all
  with e show ?case by simp
next
  case (Cons b pre)
  from Cons.prems(1) have b: "no_start_stop b" and pre: "list_all no_start_stop pre"
    by simp_all
  from dispatch_other [OF b Cons.prems(3,4)]
  have h: "hass_started (dispatch b w) = None"
    and l: "EVENT_HOMEASSISTANT_STOP \<in> set (listeners (dispatch b w))"
    and e: "only_enqueued w (dispatch b w)"
    by simp_all
  from Cons.IH [OF pre Cons.prems(2) h l] obtain w' where
    a: "await_hass_started (pre @ Fire ev # post) (dispatch b w) = (Some Shutdown_task, post, w')"
    and e': "only_enqueued (dispatch b w) w'"
    by blast
  from a Cons.prems(3) have "await_hass_started ((b # pre) @ Fire ev # post) w =
      (Some Shutdown_task, post, w')"
    by simp
  with only_enqueued_trans [OF e e'] show ?case by blast
qed


lemma close_unfinished_member:
  "r \<in> set rs \<Longrightarrow> run_end r = None \<Longrightarrow>
   r\<lparr>closed_incorrect := True, run_end := Some t\<rparr> \<in> set (close_unfinished t rs)"
  by (induction rs) auto

text \<open>
  C10. After a successful setup, with the host not yet running, let the host fire its
  stop event before any start event. Then the thread returns; on the way nothing was
  taken off the queue or marked done, nothing was written to the storage and nothing was
  committed or disposed (the listeners only put items on the queue); the engine and the
  session factory are still in place, and the run created at startup is still the one
  stored run without an end. The setup of any later session on this storage closes it as
  \<open>closed_incorrect\<close>.
\<close>

theorem stop_before_start_skips_shutdown:
  assumes "connect_loop attempts 0 None w = Some (True, w1)"
    and "hass_state w1 \<noteq> Core_running"
    and "list_all no_start_stop pre"
    and "event_type ev = EVENT_HOMEASSISTANT_STOP"
  shows "\<exists>w2 info.
           run split_entity_id purge_old_data attempts (pre @ Fire ev # post) w = Some (Returned, w2) \<and>
           only_enqueued w1 w2 \<and>
           engine (ins w2) \<noteq> None \<and> get_session (ins w2) \<noteq> None \<and>
           run_info (ins w2) = Some info \<and> open_runs (storage w2) = [info] \<and>
           (\<forall>w3 w4. storage w3 = storage w2 \<and> setup_run w3 = Inr w4 \<longrightarrow>
              info\<lparr>closed_incorrect := True, run_end := Some (recording_start (ins w3))\<rparr>
                \<in> set (recorder_runs_table (storage w4)))"
proof -
  let ?w = "w1\<lparr>hass_started := None\<rparr>"
  from connect_loop_True_props [OF assms(1)] obtain info where
    p: "get_session (ins w1) \<noteq> None" "engine (ins w1) \<noteq> None"
       "run_info (ins w1) = Some info" "open_runs (storage w1) = [info]"
    by blast
  have "hass_state ?w \<noteq> Core_running" and "hass_started ?w = None"
    using assms(2) by simp_all
  from register_gate [OF this] have
    h: "hass_started (register ?w) = None" and
    l: "EVENT_HOMEASSISTANT_STOP \<in> set (listeners (register ?w))" and
    e: "only_enqueued ?w (register ?w)"
    by simp_all
  from await_stop_first [OF assms(3,4) h l, of post] obtain w2 where
    a: "await_hass_started (pre @ Fire ev # post) (register ?w) = (Some Shutdown_task, post, w2)"
    and e2: "only_enqueued (register ?w) w2"
    by blast
  have "only_enqueued w1 ?w"
    by (simp add: only_enqueued_def)
  with e e2 have oe: "only_enqueued w1 w2"
    by (blast intro: only_enqueued_trans)
  from assms(1) a have r: "run split_entity_id purge_old_data attempts (pre @ Fire ev # post) w =
      Some (Returned, w2)"
    by (simp add: run_def)
  from oe p have q: "engine (ins w2) \<noteq> None" "get_session (ins w2) \<noteq> None"
      "run_info (ins w2) = Some info" "open_runs (storage w2) = [info]"
    by (simp_all add: only_enqueued_def open_runs_def)
  have later: "\<forall>w3 w4. storage w3 = storage w2 \<and> setup_run w3 = Inr w4 \<longrightarrow>
              info\<lparr>closed_incorrect := True, run_end := Some (recording_start (ins w3))\<rparr>
                \<in> set (recorder_runs_table (storage w4))"
  proof (intro allI impI)
    fix w3 w4 :: world
    assume s: "storage w3 = storage w2 \<and> setup_run w3 = Inr w4"
    then have gs: "get_session (ins w3) \<noteq> None"
      by (auto simp: setup_run_def split: option.splits)
    from q(4) have "info \<in> set (open_runs (storage w2))" by simp
    then have m: "info \<in> set (recorder_runs_table (storage w3))" and n: "run_end info = None"
      using s by (simp_all add: open_runs_def)
    from s setup_run_result [OF gs] have "recorder_runs_table (storage w4) =
        close_unfinished (recording_start (ins w3)) (recorder_runs_table (storage w3)) @
        [\<lparr>run_id = Some (next_run_id (storage w3)), start = recording_start (ins w3),
          run_end = None, closed_incorrect = False, created = clock w3\<rparr>]"
      by auto
    with close_unfinished_member [OF m n, of "recording_start (ins w3)"]
    show "info\<lparr>closed_incorrect := True, run_end := Some (recording_start (ins w3))\<rparr>
                \<in> set (recorder_runs_table (storage w4))"
      by simp
  qed
  from r oe q later show ?thesis by blast
qed

theorem stop_before_start_skips_shutdown_witness:
  "\<exists>w1 w2.
     connect_loop (\<lambda>n. Succeeds) 0 None (boot_world [] 0) = Some (True, w1) \<and>
     hass_state w1 \<noteq> Core_running \<and>
     list_all no_start_stop [Fire (state_changed ''light.kitchen''), Timer] \<and>
     event_type (plain_event EVENT_HOMEASSISTANT_STOP) = EVENT_HOMEASSISTANT_STOP \<and>
     run split_at_dot keep_all (\<lambda>n. Succeeds)
       ([Fire (state_changed ''light.kitchen''), Timer] @
        Fire (plain_event EVENT_HOMEASSISTANT_STOP) # [Fire (plain_event EVENT_HOMEASSISTANT_START)])
       (boot_world [] 0) = Some (Returned, w2) \<and>
     storage w2 = storage w1 \<and> trace w2 = trace w1 \<and> engine (ins w2) \<noteq> None \<and>
     map run_end (recorder_runs_table (storage w2)) = [Some 50, Some 100, None] \<and>
     events_table (storage w2) = []"
proof -
  let ?B = "boot_world [] 0"
  let ?w1 = "snd (try_setup Succeeds ?B)"
  have gs: "get_session (ins (setup_connection ?B)) \<noteq> None"
    by (simp add: setup_connection_def)
  note sr = setup_run_result [OF gs]
  have c: "connect_loop (\<lambda>n. Succeeds) 0 None ?B = Some (True, ?w1)"
    by (rule connect_loop_ok_step) (simp add: try_setup_Succeeds)
  have hs: "hass_state ?w1 \<noteq> Core_running"
    unfolding try_setup_Succeeds sr
    by (simp add: setup_connection_def boot_world_def)
  have la: "list_all no_start_stop [Fire (state_changed ''light.kitchen''), Timer]"
    by (simp add: no_start_stop_def state_changed_def EVENT_STATE_CHANGED_def
        EVENT_HOMEASSISTANT_START_def EVENT_HOMEASSISTANT_STOP_def)
  have ev: "event_type (plain_event EVENT_HOMEASSISTANT_STOP) = EVENT_HOMEASSISTANT_STOP"
    by (simp add: plain_event_def)
  have tab: "map run_end (recorder_runs_table (storage ?w1)) = [Some 50, Some 100, None]"
    and evs: "events_table (storage ?w1) = []"
    unfolding try_setup_Succeeds sr
    by (simp_all add: setup_connection_def boot_world_def Recorder_init_def finished_run_def
        crashed_run_def)
  from stop_before_start_skips_shutdown
    [where split_entity_id = split_at_dot and purge_old_data = keep_all
       and post = "[Fire (plain_event EVENT_HOMEASSISTANT_START)]", OF c hs la ev]
  obtain w2 where r: "run split_at_dot keep_all (\<lambda>n. Succeeds)
       ([Fire (state_changed ''light.kitchen''), Timer] @
        Fire (plain_event EVENT_HOMEASSISTANT_STOP) # [Fire (plain_event EVENT_HOMEASSISTANT_START)])
       ?B = Some (Returned, w2)"
    and oe: "only_enqueued ?w1 w2" and en: "engine (ins w2) \<noteq> None"
    by blast
  from oe have fr: "storage w2 = storage ?w1" "trace w2 = trace ?w1"
    by (simp_all add: only_enqueued_def)
  from c hs la ev r fr en tab evs show ?thesis
    by (intro exI [of _ ?w1] exI [of _ w2]) simp
qed

section \<open>The run that covers a point in time\<close>

lemma find_covering:
  "x \<in> set xs \<Longrightarrow> P x \<Longrightarrow> \<exists>y. find P xs = Some y \<and> P y \<and> y \<in> set xs"
  by (induction xs) auto

text \<open>
  C6, as the claim states it, fails at the point \<open>recording_start\<close> itself: the test
  of \<^verbatim>\<open>run_information\<close> is \<open>point_in_time > recording_start\<close>, so for
  \<open>t = recording_start\<close> the storage is queried, and since no stored run has
  \<open>start < t < end\<close> there, the result is none and not the in-memory current run.
\<close>

theorem run_information_at_recording_start:
  "recording_start (ins recovered_world) \<le> 100 \<and>
   run_information recovered_world (Some 100) =
     (Inr None, recovered_world\<lparr>trace := [Query, Commit]\<rparr>) \<and>
   run_information recovered_world (Some 100) \<noteq>
     (Inr (run_info (ins recovered_world)), recovered_world)"
  by (simp add: run_information_def recovered_world_def Recorder_init_def covers_def
      finished_run_def crashed_run_def current_run_def)

text \<open>
  C6, amended. \<^verbatim>\<open>run_information\<close> returns the in-memory current run, and leaves the
  world as it is (no storage query), for every point in time that is absent or strictly
  later than \<open>recording_start\<close>. For a point in time \<open>t\<close> up to \<open>recording_start\<close>, with
  the connection set up, it queries the storage and returns the first stored run with
  \<open>start < t < end\<close>. So for \<open>t\<close> strictly inside the interval of a prior run (one that
  ended by \<open>recording_start\<close>) it returns a stored run that covers \<open>t\<close>, which is that
  prior run when no other stored run covers \<open>t\<close>; and it returns none when no stored run
  covers \<open>t\<close>.
\<close>

theorem run_information_covering:
  "(point_in_time = None \<or> (\<exists>t. point_in_time = Some t \<and> recording_start (ins hass) < t) \<longrightarrow>
      run_information hass point_in_time = (Inr (run_info (ins hass)), hass)) \<and>
   (\<forall>t. point_in_time = Some t \<and> t \<le> recording_start (ins hass) \<and>
        get_session (ins hass) \<noteq> None \<longrightarrow>
      run_information hass point_in_time =
        (Inr (find (covers t) (recorder_runs_table (storage hass))),
         hass\<lparr>trace := trace hass @ [Query, Commit]\<rparr>)) \<and>
   (\<forall>t prior e. point_in_time = Some t \<and> get_session (ins hass) \<noteq> None \<and>
        prior \<in> set (recorder_runs_table (storage hass)) \<and>
        start prior < t \<and> run_end prior = Some e \<and> t < e \<and> e \<le> recording_start (ins hass) \<longrightarrow>
      (\<exists>r. run_information hass point_in_time =
              (Inr (Some r), hass\<lparr>trace := trace hass @ [Query, Commit]\<rparr>) \<and>
            covers t r \<and> r \<in> set (recorder_runs_table (storage hass)) \<and>
            ((\<forall>r' \<in> set (recorder_runs_table (storage hass)). covers t r' \<longrightarrow> r' = prior) \<longrightarrow>
               r = prior))) \<and>
   (\<forall>t. point_in_time = Some t \<and> t \<le> recording_start (ins hass) \<and>
        get_session (ins hass) \<noteq> None \<and>
        (\<forall>r \<in> set (recorder_runs_table (storage hass)). \<not> covers t r) \<longrightarrow>
      run_information hass point_in_time =
        (Inr None, hass\<lparr>trace := trace hass @ [Query, Commit]\<rparr>))"
proof -
  let ?tab = "recorder_runs_table (storage hass)"
  let ?h = "hass\<lparr>trace := trace hass @ [Query, Commit]\<rparr>"
  have qry: "run_information hass point_in_time = (Inr (find (covers t) ?tab), ?h)"
    if "point_in_time = Some t" "t \<le> recording_start (ins hass)" "get_session (ins hass) \<noteq> None"
    for t
  proof -
    from that(3) obtain s where "get_session (ins hass) = Some s" by (cases "get_session (ins hass)") simp_all
    with that(1,2) show ?thesis
      by (simp add: run_information_def)
  qed
  have 1: "point_in_time = None \<or> (\<exists>t. point_in_time = Some t \<and> recording_start (ins hass) < t) \<longrightarrow>
      run_information hass point_in_time = (Inr (run_info (ins hass)), hass)"
  proof
    assume "point_in_time = None \<or> (\<exists>t. point_in_time = Some t \<and> recording_start (ins hass) < t)"
    then show "run_information hass point_in_time = (Inr (run_info (ins hass)), hass)"
    proof
      assume "point_in_time = None"
      then show ?thesis by (simp add: run_information_def)
    next
      assume "\<exists>t. point_in_time = Some t \<and> recording_start (ins hass) < t"
      then obtain t where "point_in_time = Some t" "recording_start (ins hass) < t" by blast
      then show ?thesis by (simp add: run_information_def)
    qed
  qed
  have 2: "\<forall>t. point_in_time = Some t \<and> t \<le> recording_start (ins hass) \<and>
        get_session (ins hass) \<noteq> None \<longrightarrow>
      run_information hass point_in_time = (Inr (find (covers t) ?tab), ?h)"
  proof (intro allI impI)
    fix t
    assume "point_in_time = Some t \<and> t \<le> recording_start (ins hass) \<and>
        get_session (ins hass) \<noteq> None"
    then show "run_information hass point_in_time = (Inr (find (covers t) ?tab), ?h)"
      by (intro qry) simp_all
  qed
  have 3: "\<forall>t prior e. point_in_time = Some t \<and> get_session (ins hass) \<noteq> None \<and>
        prior \<in> set ?tab \<and>
        start prior < t \<and> run_end prior = Some e \<and> t < e \<and> e \<le> recording_start (ins hass) \<longrightarrow>
      (\<exists>r. run_information hass point_in_time = (Inr (Some r), ?h) \<and>
            covers t r \<and> r \<in> set ?tab \<and>
            ((\<forall>r' \<in> set ?tab. covers t r' \<longrightarrow> r' = prior) \<longrightarrow> r = prior))"
  proof (intro allI impI)
    fix t prior e
    assume a: "point_in_time = Some t \<and> get_session (ins hass) \<noteq> None \<and>
        prior \<in> set ?tab \<and>
        start prior < t \<and> run_end prior = Some e \<and> t < e \<and> e \<le> recording_start (ins hass)"
    then have le: "t \<le> recording_start (ins hass)" by simp
    from a have c: "covers t prior" by (simp add: covers_def)
    from a have m: "prior \<in> set ?tab" by simp
    from find_covering [where P = "covers t", OF m c] obtain r where
      f: "find (covers t) ?tab = Some r" and r: "covers t r" "r \<in> set ?tab"
      by blast
    from a have pt: "point_in_time = Some t" and gs: "get_session (ins hass) \<noteq> None"
      by simp_all
    have "run_information hass point_in_time = (Inr (find (covers t) ?tab), ?h)"
      using pt le gs by (rule qry)
    with f have q: "run_information hass point_in_time = (Inr (Some r), ?h)"
      by simp
    have u: "(\<forall>r' \<in> set ?tab. covers t r' \<longrightarrow> r' = prior) \<longrightarrow> r = prior"
      using r by blast
    from q r u show "\<exists>r. run_information hass point_in_time = (Inr (Some r), ?h) \<and>
            covers t r \<and> r \<in> set ?tab \<and>
            ((\<forall>r' \<in> set ?tab. covers t r' \<longrightarrow> r' = prior) \<longrightarrow> r = prior)"
      by (intro exI [of _ r] conjI)
  qed
  have 4: "\<forall>t. point_in_time = Some t \<and> t \<le> recording_start (ins hass) \<and>
        get_session (ins hass) \<noteq> None \<and> (\<forall>r \<in> set ?tab. \<not> covers t r) \<longrightarrow>
      run_information hass point_in_time = (Inr None, ?h)"
  proof (intro allI impI)
    fix t
    assume a: "point_in_time = Some t \<and> t \<le> recording_start (ins hass) \<and>
        get_session (ins hass) \<noteq> None \<and> (\<forall>r \<in> set ?tab. \<not> covers t r)"
    then have "find (covers t) ?tab = None"
      by (simp add: find_None_iff)
    moreover from a have "run_information hass point_in_time = (Inr (find (covers t) ?tab), ?h)"
      by (intro qry) simp_all
    ultimately show "run_information hass point_in_time = (Inr None, ?h)"
      by simp
  qed
  from 1 2 3 4 show ?thesis
    by (intro conjI)
qed

theorem run_information_covering_witness:
  "run_information recovered_world None = (Inr (Some current_run), recovered_world) \<and>
   run_information recovered_world (Some 150) = (Inr (Some current_run), recovered_world) \<and>
   run_information recovered_world (Some 30) =
     (Inr (Some finished_run), recovered_world\<lparr>trace := [Query, Commit]\<rparr>) \<and>
   run_information recovered_world (Some 55) =
     (Inr None, recovered_world\<lparr>trace := [Query, Commit]\<rparr>)"
proof -
  have rs: "recording_start (ins recovered_world) = 100"
    and gs: "get_session (ins recovered_world) \<noteq> None"
    and ri: "run_info (ins recovered_world) = Some current_run"
    and tab: "recorder_runs_table (storage recovered_world) =
              [finished_run, crashed_run\<lparr>closed_incorrect := True, run_end := Some 100\<rparr>, current_run]"
    and tr: "trace recovered_world = []"
    by (simp_all add: recovered_world_def Recorder_init_def)
  have c30: "\<forall>r' \<in> set (recorder_runs_table (storage recovered_world)).
               covers 30 r' \<longrightarrow> r' = finished_run"
    unfolding tab by (simp add: covers_def finished_run_def crashed_run_def current_run_def)
  have c55: "\<forall>r \<in> set (recorder_runs_table (storage recovered_world)). \<not> covers 55 r"
    unfolding tab by (simp add: covers_def finished_run_def crashed_run_def current_run_def)
  have fin: "finished_run \<in> set (recorder_runs_table (storage recovered_world))"
    "start finished_run < 30" "run_end finished_run = Some 50"
    unfolding tab by (simp_all add: finished_run_def)
  from run_information_covering [of None recovered_world]
  have n: "run_information recovered_world None = (Inr (Some current_run), recovered_world)"
    by (simp add: ri)
  from run_information_covering [of "Some 150" recovered_world]
  have a: "run_information recovered_world (Some 150) = (Inr (Some current_run), recovered_world)"
    by (simp add: ri rs)
  note th30 = run_information_covering [of "Some 30" recovered_world,
      THEN conjunct2, THEN conjunct2, THEN conjunct1, rule_format, of 30 finished_run 50]
  from th30 gs fin rs c30
  have b: "run_information recovered_world (Some 30) =
     (Inr (Some finished_run), recovered_world\<lparr>trace := [Query, Commit]\<rparr>)"
    by (auto simp: tr)
  note th55 = run_information_covering [of "Some 55" recovered_world,
      THEN conjunct2, THEN conjunct2, THEN conjunct2, rule_format, of 55]
  from th55 gs rs c55
  have c: "run_information recovered_world (Some 55) =
     (Inr None, recovered_world\<lparr>trace := [Query, Commit]\<rparr>)"
    by (simp add: tr)
  from n a b c show ?thesis by (intro conjI)
qed

end
